theory Spec2Isabelle
  imports Main
begin

section \<open>One-dimensional cellular automata: the rule engine of \<open>src/ca/ca.py\<close>\<close>

text \<open>
  The class \<open>CA\<close> holds a rule table, the neighbourhood radii and the number of states.
  Python integers are unbounded, so they are \<open>int\<close>; lists of states are \<open>int list\<close>.
  Every \<open>raise\<close> of the source is a value of the type \<open>error\<close>: the source raises
  \<open>ValueError\<close> throughout and tells the cases apart by message, the constructors below
  name the cases. \<open>IndexError\<close>, \<open>ZeroDivisionError\<close>, \<open>RecursionError\<close> and the
  \<open>ValueError\<close> of \<open>max\<close> on an empty list are the exceptions of the Python runtime that
  the source can reach through list indexing, \<open>divmod\<close>, recursion and \<open>max\<close>.
\<close>

datatype error =
    InvalidConfiguration
  | RuleNumberOutOfRange
  | RuleTableLengthMismatch
  | StateOutOfRange
  | SequenceTooShort
  | InvalidStepCount
  | IndexError
  | ZeroDivisionError
  | RecursionError
  | EmptyMaxArgument

text \<open>The argument \<open>rule: Union[List[int], int]\<close> of the constructor.\<close>

datatype rule_spec = RuleNumber int | RuleTable "int list"

text \<open>The attributes that \<open>__init__\<close> stores on \<open>self\<close>.\<close>

record CA =
  nhd :: "int \<times> int"
  n_states :: int
  in_size :: int
  rule :: "int list"
  max_rule_ix :: int

subsection \<open>Python list primitives\<close>

text \<open>
  The subscript \<open>xs[i]\<close>. Positions \<open>0 .. len(xs) - 1\<close> read forwards, positions
  \<open>-len(xs) .. -1\<close> read backwards from the end of the list, and every other subscript
  raises \<open>IndexError\<close>.
\<close>

definition list_index :: "'a list \<Rightarrow> int \<Rightarrow> error + 'a" where
  "list_index xs i =
     (if 0 \<le> i \<and> i < int (length xs) then Inr (xs ! nat i)
      else if i < 0 \<and> - int (length xs) \<le> i then Inr (xs ! nat (i + int (length xs)))
      else Inl IndexError)"

text \<open>\<open>xs[a:b]\<close>: both bounds are clamped to the list, negative bounds count from the end.\<close>

definition slice_bound :: "nat \<Rightarrow> int \<Rightarrow> nat" where
  "slice_bound len i = (if i < 0 then nat (max 0 (i + int len)) else min len (nat i))"

definition slice :: "'a list \<Rightarrow> int \<Rightarrow> int \<Rightarrow> 'a list" where
  "slice xs a b =
     (let lo = slice_bound (length xs) a; hi = slice_bound (length xs) b
      in take (hi - lo) (drop lo xs))"

text \<open>\<open>[0 for _ in range(m)]\<close>: empty when \<open>m\<close> is not positive.\<close>

definition zeros :: "int \<Rightarrow> int list" where
  "zeros m = replicate (nat m) 0"

subsection \<open>\<open>CA._states_in_bounds\<close>\<close>

definition states_in_bounds :: "int \<Rightarrow> int list \<Rightarrow> error + unit" where
  "states_in_bounds n sts =
     (if list_ex (\<lambda>state. state < 0 \<or> state \<ge> n) sts then Inl StateOutOfRange else Inr ())"

subsection \<open>\<open>CA._int_to_states\<close>\<close>

text \<open>
  The inner function \<open>int_to_states_rcrs\<close> calls itself once per digit and returns when
  \<open>k == 0\<close>. The interpreter stacks one frame per call and raises \<open>RecursionError\<close> when
  a call would exceed its recursion limit (1000 frames for the whole stack unless changed
  with \<open>sys.setrecursionlimit\<close>). The first argument is the number of frames that the
  interpreter can still stack: every call uses one, and a call with none left raises. For
  a negative \<open>k\<close> the quotient never reaches zero and the recursion ends in that error.
  \<open>divmod\<close> is floor division, as \<open>div\<close> and \<open>mod\<close> on \<open>int\<close> are, and raises on a zero
  divisor.
\<close>

fun int_to_states_rcrs :: "nat \<Rightarrow> int \<Rightarrow> int \<Rightarrow> int list \<Rightarrow> error + int list" where
  "int_to_states_rcrs 0 k n acc = Inl RecursionError"
| "int_to_states_rcrs (Suc depth) k n acc =
     (if k = 0 then Inr acc
      else if n = 0 then Inl ZeroDivisionError
      else int_to_states_rcrs depth (k div n) n (acc @ [k mod n]))"

text \<open>
  \<open>_int_to_states\<close> reads \<open>self.n_states\<close> and \<open>self.in_size\<close>, which \<open>__init__\<close> has
  set before the call (\<open>in_size\<close> is at least 1 there, so \<open>**\<close> is integer power).
  \<open>depth\<close> is the number of frames left to the recursion when \<open>_int_to_states\<close> starts
  it; it depends on the recursion limit and on how deep the caller of the constructor is,
  and is below 1000 at the default limit.
\<close>

definition int_to_states :: "nat \<Rightarrow> int \<Rightarrow> int \<Rightarrow> int \<Rightarrow> error + int list" where
  "int_to_states depth n insz k =
     (case int_to_states_rcrs depth k n [] of
        Inl e \<Rightarrow> Inl e
      | Inr out \<Rightarrow>
          (let rem = n ^ nat insz - int (length out)
           in Inr (if rem > 0 then out @ zeros rem else out)))"

subsection \<open>\<open>CA.__init__\<close>\<close>

definition new_CA :: "nat \<Rightarrow> rule_spec \<Rightarrow> int \<times> int \<Rightarrow> int \<Rightarrow> error + CA" where
  "new_CA depth rl nh n =
     (if fst nh < 0 \<or> snd nh < 0 then Inl InvalidConfiguration
      else if n < 2 then Inl InvalidConfiguration
      else
        (let insz = fst nh + snd nh + 1;
             max_rule_num = n ^ nat (n ^ nat insz) - 1;
             rule_len = n ^ nat insz
         in case rl of
              RuleNumber k \<Rightarrow>
                (if k < 0 \<or> k > max_rule_num then Inl RuleNumberOutOfRange
                 else (case int_to_states depth n insz k of
                         Inl e \<Rightarrow> Inl e
                       | Inr tbl \<Rightarrow>
                           Inr \<lparr>nhd = nh, n_states = n, in_size = insz,
                                rule = tbl, max_rule_ix = rule_len\<rparr>))
            | RuleTable tbl \<Rightarrow>
                (if int (length tbl) \<noteq> rule_len then Inl RuleTableLengthMismatch
                 else if \<not> list_all (\<lambda>x. 0 \<le> x \<and> x < n) tbl then Inl StateOutOfRange
                 else Inr \<lparr>nhd = nh, n_states = n, in_size = insz,
                           rule = tbl, max_rule_ix = rule_len\<rparr>)))"

subsection \<open>\<open>CA._neighborhood_to_index\<close>\<close>

text \<open>
  The exponent \<open>len(states) - p - 1\<close> is never negative, since \<open>p\<close> enumerates the
  positions of \<open>states\<close>; it is a natural number here.
\<close>

definition neighborhood_to_index :: "CA \<Rightarrow> int list \<Rightarrow> error + int" where
  "neighborhood_to_index ca sts =
     (case states_in_bounds (n_states ca) sts of
        Inl e \<Rightarrow> Inl e
      | Inr _ \<Rightarrow>
          Inr (sum_list (map (\<lambda>(p, state). state * n_states ca ^ (length sts - p - 1))
                             (enumerate 0 sts))))"

subsection \<open>\<open>CA._apply_rule\<close>\<close>

text \<open>
  The loop over \<open>range(len(seq_) - self.in_size + 1)\<close>: \<open>starts\<close> are the window
  positions still to visit, \<open>out\<close> is the output built so far.
\<close>

fun apply_windows :: "CA \<Rightarrow> int list \<Rightarrow> nat list \<Rightarrow> int list \<Rightarrow> error + int list" where
  "apply_windows ca seq' [] out = Inr out"
| "apply_windows ca seq' (start_ix # starts) out =
     (let window = slice seq' (int start_ix) (int start_ix + in_size ca)
      in case neighborhood_to_index ca window of
           Inl e \<Rightarrow> Inl e
         | Inr window_int \<Rightarrow>
             (case list_index (rule ca) window_int of
                Inl e \<Rightarrow> Inl e
              | Inr s \<Rightarrow> apply_windows ca seq' starts (out @ [s])))"

definition apply_rule :: "CA \<Rightarrow> int list \<Rightarrow> bool \<Rightarrow> error + int list" where
  "apply_rule ca sq pre_pad =
     (if \<not> pre_pad \<and> int (length sq) < in_size ca then Inl SequenceTooShort
      else if \<not> list_all (\<lambda>x. 0 \<le> x \<and> x < n_states ca) sq then Inl StateOutOfRange
      else
        (let seq' = (if pre_pad then zeros (fst (nhd ca)) @ sq @ zeros (snd (nhd ca)) else sq)
         in apply_windows ca seq' [0 ..< nat (int (length seq') - in_size ca + 1)] []))"

subsection \<open>\<open>CA._pad_output\<close>\<close>

text \<open>The first loop: \<open>_states_in_bounds\<close> on every sequence, stopping at the first failure.\<close>

fun check_all_in_bounds :: "int \<Rightarrow> int list list \<Rightarrow> error + unit" where
  "check_all_in_bounds n [] = Inr ()"
| "check_all_in_bounds n (sq # seqs) =
     (case states_in_bounds n sq of Inl e \<Rightarrow> Inl e | Inr _ \<Rightarrow> check_all_in_bounds n seqs)"

text \<open>
  The body of the padding loop for one position \<open>ix\<close>: \<open>seqs[ix]\<close> is replaced when its
  \<open>fill\<close> is positive. \<open>in_size > 1\<close> holds where it is called, so \<open>divmod\<close> has a
  positive divisor.
\<close>

definition pad_at :: "CA \<Rightarrow> int \<Rightarrow> int list list \<Rightarrow> nat \<times> int \<Rightarrow> int list list" where
  "pad_at ca max_len seqs p =
     (let ix = fst p; seq_len = snd p; fill = max_len - seq_len
      in if fill > 0 then
           (let nhd_reps = fill div (in_size ca - 1);
                extra = fill mod (in_size ca - 1);
                extra_both = extra div 2;
                extra_l = extra mod 2;
                l_pad = zeros (nhd_reps * fst (nhd ca) + extra_both + extra_l);
                r_pad = zeros (nhd_reps * snd (nhd ca) + extra_both)
            in seqs[ix := l_pad @ seqs ! ix @ r_pad])
         else seqs)"

text \<open>
  \<open>max\<close> and \<open>min\<close> of the lengths raise on an empty list of sequences; \<open>seq_lens\<close> is
  computed once, before the loop changes \<open>seqs\<close>.
\<close>

definition pad_output :: "CA \<Rightarrow> int list list \<Rightarrow> error + int list list" where
  "pad_output ca seqs =
     (case check_all_in_bounds (n_states ca) seqs of
        Inl e \<Rightarrow> Inl e
      | Inr _ \<Rightarrow>
          (if in_size ca > 1 then
             (let seq_lens = map (\<lambda>s. int (length s)) seqs
              in if seq_lens = [] then Inl EmptyMaxArgument
                 else
                   (let max_len = fold max (tl seq_lens) (hd seq_lens);
                        min_len = fold min (tl seq_lens) (hd seq_lens)
                    in if max_len > min_len
                       then Inr (fold (\<lambda>p acc. pad_at ca max_len acc p) (enumerate 0 seq_lens) seqs)
                       else Inr seqs))
           else Inr seqs))"

subsection \<open>\<open>CA.__call__\<close>\<close>

text \<open>
  The loop \<open>for _ in range(steps)\<close> with \<open>m\<close> iterations left; \<open>out[-1]\<close> is the last
  row, and \<open>out\<close> is never empty.
\<close>

fun evolve_loop :: "CA \<Rightarrow> bool \<Rightarrow> nat \<Rightarrow> int list list \<Rightarrow> error + int list list" where
  "evolve_loop ca pre_pad 0 out = Inr out"
| "evolve_loop ca pre_pad (Suc m) out =
     (case apply_rule ca (last out) pre_pad of
        Inl e \<Rightarrow> Inl e
      | Inr states_next \<Rightarrow>
          (if length states_next > 0 then evolve_loop ca pre_pad m (out @ [states_next])
           else Inr out))"

definition call :: "CA \<Rightarrow> int list \<Rightarrow> int \<Rightarrow> bool \<Rightarrow> bool \<Rightarrow> error + int list list" where
  "call ca sq steps pre_pad post_pad =
     (if steps < 1 then Inl InvalidStepCount
      else
        (case evolve_loop ca pre_pad (nat steps) [sq] of
           Inl e \<Rightarrow> Inl e
         | Inr out \<Rightarrow> (if post_pad then pad_output ca out else Inr out)))"

subsection \<open>The digits of a rule number\<close>

text \<open>
  The base-\<open>n\<close> digits of a non-negative number, least significant first: what the
  recursion of \<open>int_to_states_rcrs\<close> appends to its accumulator when it has frames enough.
\<close>

function le_digits :: "int \<Rightarrow> int \<Rightarrow> int list" where
  "le_digits n k = (if k \<le> 0 \<or> n < 2 then [] else (k mod n) # le_digits n (k div n))"
  by pat_completeness auto
termination
proof (relation "measure (\<lambda>(n, k). nat k)")
  show "wf (measure (\<lambda>(n::int, k::int). nat k))" by simp
next
  fix n k :: int
  assume "\<not> (k \<le> 0 \<or> n < 2)"
  then have "0 < k" "2 \<le> n" by auto
  then have "k div n < k" by (simp add: int_div_less_self)
  moreover have "0 \<le> k div n" using \<open>0 < k\<close> \<open>2 \<le> n\<close> by (simp add: pos_imp_zdiv_nonneg_iff)
  ultimately show "((n, k div n), (n, k)) \<in> measure (\<lambda>(n, k). nat k)"
    using \<open>0 < k\<close> by simp
qed

declare le_digits.simps [simp del]

subsection \<open>Well-formed automata and repeated steps\<close>

text \<open>
  What \<open>__init__\<close> establishes for every automaton it returns (lemma \<open>new_CA_wf\<close>
  below); the lemmas about single steps are stated for automata of this shape.
\<close>

definition wf_CA :: "CA \<Rightarrow> bool" where
  "wf_CA ca \<longleftrightarrow>
     2 \<le> n_states ca \<and> 0 \<le> fst (nhd ca) \<and> 0 \<le> snd (nhd ca)
     \<and> in_size ca = fst (nhd ca) + snd (nhd ca) + 1
     \<and> int (length (rule ca)) = n_states ca ^ nat (in_size ca)
     \<and> list_all (\<lambda>x. 0 \<le> x \<and> x < n_states ca) (rule ca)"

text \<open>A sequence of states of the automaton: every value lies in \<open>[0, n_states)\<close>.\<close>

definition valid_states :: "CA \<Rightarrow> int list \<Rightarrow> bool" where
  "valid_states ca sq = list_all (\<lambda>x. 0 \<le> x \<and> x < n_states ca) sq"

text \<open>
  The index of a window as the specification writes it: the sum over the positions \<open>p\<close> of
  \<open>w[p] * state_count ^ (window_size - p - 1)\<close>, the leftmost cell being the most
  significant digit. It is compared with \<open>neighborhood_to_index\<close> below.
\<close>

definition big_endian_index :: "int \<Rightarrow> int list \<Rightarrow> int" where
  "big_endian_index n w = (\<Sum>p<length w. w ! p * n ^ (length w - p - 1))"

text \<open>
  \<open>_apply_rule\<close> applied \<open>j\<close> times in a row, each time to the result of the time before,
  stopping at the first error.
\<close>

fun repeat_step :: "CA \<Rightarrow> bool \<Rightarrow> nat \<Rightarrow> int list \<Rightarrow> error + int list" where
  "repeat_step ca pre_pad 0 sq = Inr sq"
| "repeat_step ca pre_pad (Suc j) sq =
     (case apply_rule ca sq pre_pad of
        Inl e \<Rightarrow> Inl e
      | Inr nxt \<Rightarrow> repeat_step ca pre_pad j nxt)"

text \<open>
  The row that the padding loop leaves at a position whose row was \<open>s\<close>: the value that
  \<open>pad_at\<close> stores there, or \<open>s\<close> itself when its \<open>fill\<close> is not positive.
\<close>

definition padded_row :: "CA \<Rightarrow> int \<Rightarrow> int list \<Rightarrow> int list" where
  "padded_row ca max_len s = pad_at ca max_len [s] (0, int (length s)) ! 0"

section \<open>The same methods over a store of list objects\<close>

text \<open>
  Python lists are mutable objects, and a name or a list element holds a reference to
  one. To speak about which list objects a call reads, changes and creates, the methods
  are written a second time over an explicit store: a \<open>heap\<close> is the sequence of all list
  objects of integers created so far, an address is a position in it, and creating a list
  (a literal, a comprehension that is kept, a concatenation, \<open>deepcopy\<close>) appends to the
  store. The history built by \<open>__call__\<close> is a list of addresses of rows. An exception
  leaves the store as it is at the \<open>raise\<close>, so every function returns the store next to
  its result. Windows and pad lists are used once and never stored; they stay values.
\<close>

type_synonym addr = nat

type_synonym heap = "int list list"

definition alloc :: "heap \<Rightarrow> int list \<Rightarrow> addr \<times> heap" where
  "alloc h xs = (length h, h @ [xs])"

text \<open>The window loop of \<open>_apply_rule\<close>: \<open>out.append\<close> changes the object at \<open>out\<close>.\<close>

fun apply_windows_h :: "CA \<Rightarrow> addr \<Rightarrow> nat list \<Rightarrow> addr \<Rightarrow> heap \<Rightarrow> (error + unit) \<times> heap" where
  "apply_windows_h ca seq' [] out h = (Inr (), h)"
| "apply_windows_h ca seq' (start_ix # starts) out h =
     (let window = slice (h ! seq') (int start_ix) (int start_ix + in_size ca)
      in case neighborhood_to_index ca window of
           Inl e \<Rightarrow> (Inl e, h)
         | Inr window_int \<Rightarrow>
             (case list_index (rule ca) window_int of
                Inl e \<Rightarrow> (Inl e, h)
              | Inr s \<Rightarrow> apply_windows_h ca seq' starts out (h[out := h ! out @ [s]])))"

text \<open>
  \<open>_apply_rule\<close>: \<open>out = []\<close> creates the result object; \<open>seq_\<close> is a new object with
  input padding and the argument itself (\<open>seq_ = seq\<close>) without.
\<close>

definition apply_rule_h :: "CA \<Rightarrow> addr \<Rightarrow> bool \<Rightarrow> heap \<Rightarrow> (error + addr) \<times> heap" where
  "apply_rule_h ca sq pre_pad h =
     (if \<not> pre_pad \<and> int (length (h ! sq)) < in_size ca then (Inl SequenceTooShort, h)
      else if \<not> list_all (\<lambda>x. 0 \<le> x \<and> x < n_states ca) (h ! sq) then (Inl StateOutOfRange, h)
      else
        (let (out, h1) = alloc h [];
             (seq', h2) = (if pre_pad
                           then alloc h1 (zeros (fst (nhd ca)) @ h1 ! sq @ zeros (snd (nhd ca)))
                           else (sq, h1))
         in case apply_windows_h ca seq'
                   [0 ..< nat (int (length (h2 ! seq')) - in_size ca + 1)] out h2 of
              (Inl e, h3) \<Rightarrow> (Inl e, h3)
            | (Inr _, h3) \<Rightarrow> (Inr out, h3)))"

text \<open>The padding loop of \<open>_pad_output\<close>: \<open>seqs[ix] = l_pad + seqs[ix] + r_pad\<close> creates a
  new object and stores its address at position \<open>ix\<close> of the history.\<close>

definition pad_at_h :: "CA \<Rightarrow> int \<Rightarrow> addr list \<times> heap \<Rightarrow> nat \<times> int \<Rightarrow> addr list \<times> heap" where
  "pad_at_h ca max_len st p =
     (let seqs = fst st; h = snd st; ix = fst p; seq_len = snd p; fill = max_len - seq_len
      in if fill > 0 then
           (let nhd_reps = fill div (in_size ca - 1);
                extra = fill mod (in_size ca - 1);
                extra_both = extra div 2;
                extra_l = extra mod 2;
                l_pad = zeros (nhd_reps * fst (nhd ca) + extra_both + extra_l);
                r_pad = zeros (nhd_reps * snd (nhd ca) + extra_both);
                (row, h') = alloc h (l_pad @ h ! (seqs ! ix) @ r_pad)
            in (seqs[ix := row], h'))
         else (seqs, h))"

definition pad_output_h :: "CA \<Rightarrow> addr list \<Rightarrow> heap \<Rightarrow> (error + addr list) \<times> heap" where
  "pad_output_h ca seqs h =
     (case check_all_in_bounds (n_states ca) (map (\<lambda>a. h ! a) seqs) of
        Inl e \<Rightarrow> (Inl e, h)
      | Inr _ \<Rightarrow>
          (if in_size ca > 1 then
             (let seq_lens = map (\<lambda>a. int (length (h ! a))) seqs
              in if seq_lens = [] then (Inl EmptyMaxArgument, h)
                 else
                   (let max_len = fold max (tl seq_lens) (hd seq_lens);
                        min_len = fold min (tl seq_lens) (hd seq_lens)
                    in if max_len > min_len
                       then (case fold (\<lambda>p st. pad_at_h ca max_len st p)
                                       (enumerate 0 seq_lens) (seqs, h) of
                               (seqs', h') \<Rightarrow> (Inr seqs', h'))
                       else (Inr seqs, h)))
           else (Inr seqs, h)))"

text \<open>\<open>__call__\<close>: \<open>deepcopy(seq)\<close> creates a new object with the contents of the argument.\<close>

fun evolve_loop_h :: "CA \<Rightarrow> bool \<Rightarrow> nat \<Rightarrow> addr list \<Rightarrow> heap \<Rightarrow> (error + addr list) \<times> heap" where
  "evolve_loop_h ca pre_pad 0 out h = (Inr out, h)"
| "evolve_loop_h ca pre_pad (Suc m) out h =
     (case apply_rule_h ca (last out) pre_pad h of
        (Inl e, h1) \<Rightarrow> (Inl e, h1)
      | (Inr states_next, h1) \<Rightarrow>
          (if length (h1 ! states_next) > 0
           then evolve_loop_h ca pre_pad m (out @ [states_next]) h1
           else (Inr out, h1)))"

definition call_h :: "CA \<Rightarrow> addr \<Rightarrow> int \<Rightarrow> bool \<Rightarrow> bool \<Rightarrow> heap \<Rightarrow> (error + addr list) \<times> heap" where
  "call_h ca sq steps pre_pad post_pad h =
     (if steps < 1 then (Inl InvalidStepCount, h)
      else
        (let (copy, h1) = alloc h (h ! sq)
         in case evolve_loop_h ca pre_pad (nat steps) [copy] h1 of
              (Inl e, h2) \<Rightarrow> (Inl e, h2)
            | (Inr out, h2) \<Rightarrow> (if post_pad then pad_output_h ca out h2 else (Inr out, h2))))"

text \<open>
  Reading a result over the store back as a value: an error stays, an address (or a list
  of addresses) is replaced by what \<open>f\<close> finds there.
\<close>

definition on_success :: "('a \<Rightarrow> 'b) \<Rightarrow> error + 'a \<Rightarrow> error + 'b" where
  "on_success f res = (case res of Inl e \<Rightarrow> Inl e | Inr x \<Rightarrow> Inr (f x))"

section \<open>Properties\<close>

subsection \<open>The digits of a rule number and the recursion that extracts them\<close>

lemma le_digits_zero: "le_digits n 0 = []"
  by (simp add: le_digits.simps)

lemma le_digits_pos:
  "0 < k \<Longrightarrow> 2 \<le> n \<Longrightarrow> le_digits n k = k mod n # le_digits n (k div n)"
  by (subst le_digits.simps) simp

lemma le_digits_length:
  "0 \<le> k \<Longrightarrow> 2 \<le> n \<Longrightarrow> k < n ^ m \<Longrightarrow> length (le_digits n k) \<le> m"
proof (induction m arbitrary: k)
  case 0
  then have "k = 0" by simp
  then show ?case by (simp add: le_digits_zero)
next
  case (Suc m)
  show ?case
  proof (cases "k = 0")
    case True
    then show ?thesis by (simp add: le_digits_zero)
  next
    case False
    with Suc.prems have pos: "0 < k" by simp
    have "n * (k div n) + k mod n = k" by (rule mult_div_mod_eq)
    moreover have "0 \<le> k mod n" using Suc.prems(2) by simp
    moreover have "k < n * n ^ m" using Suc.prems(3) by simp
    ultimately have "n * (k div n) < n * n ^ m" by linarith
    then have "k div n < n ^ m" using Suc.prems(2) by simp
    moreover have "0 \<le> k div n" using Suc.prems by (simp add: pos_imp_zdiv_nonneg_iff)
    ultimately have "length (le_digits n (k div n)) \<le> m"
      using Suc.IH Suc.prems(2) by blast
    then show ?thesis using pos Suc.prems(2) by (simp add: le_digits_pos)
  qed
qed

lemma le_digits_nth:
  "i < length (le_digits n k) \<Longrightarrow> le_digits n k ! i = (k div n ^ i) mod n"
proof (induction n k arbitrary: i rule: le_digits.induct)
  case (1 n k)
  show ?case
  proof (cases "k \<le> 0 \<or> n < 2")
    case True
    with 1(2) show ?thesis by (simp add: le_digits.simps)
  next
    case False
    then have eq: "le_digits n k = k mod n # le_digits n (k div n)"
      by (subst le_digits.simps) simp
    show ?thesis
    proof (cases i)
      case 0
      then show ?thesis by (simp add: eq)
    next
      case (Suc j)
      with 1(2) eq have "j < length (le_digits n (k div n))" by simp
      from 1(1)[OF False this] have "le_digits n (k div n) ! j = (k div n div n ^ j) mod n" .
      moreover have "k div n div n ^ j = k div n ^ Suc j"
        using False by (simp add: zdiv_zmult2_eq)
      ultimately show ?thesis using Suc eq by simp
    qed
  qed
qed

lemma le_digits_exhausts:
  "0 \<le> k \<Longrightarrow> 2 \<le> n \<Longrightarrow> k div n ^ length (le_digits n k) = 0"
proof (induction n k rule: le_digits.induct)
  case (1 n k)
  show ?case
  proof (cases "k = 0")
    case True
    then show ?thesis by simp
  next
    case False
    with 1 have pos: "0 < k" "\<not> (k \<le> 0 \<or> n < 2)" by auto
    have eq: "le_digits n k = k mod n # le_digits n (k div n)"
      using pos by (subst le_digits.simps) simp
    have "0 \<le> k div n" using 1(2,3) by (simp add: pos_imp_zdiv_nonneg_iff)
    from 1(1)[OF pos(2) this 1(3)]
    have "k div n div n ^ length (le_digits n (k div n)) = 0" .
    then show ?thesis using 1(3) by (simp add: eq zdiv_zmult2_eq)
  qed
qed

lemma le_digits_beyond:
  assumes "0 \<le> k" "2 \<le> n" "length (le_digits n k) \<le> i"
  shows "k div n ^ i = 0"
proof -
  have "k div n ^ length (le_digits n k) = 0" using assms by (simp add: le_digits_exhausts)
  moreover have "0 < n ^ length (le_digits n k)" using assms(2) by simp
  ultimately have "k < n ^ length (le_digits n k)"
    using assms(1,2) by (auto simp: zdiv_eq_0_iff)
  also have "\<dots> \<le> n ^ i" using assms by (simp add: power_increasing)
  finally show ?thesis using assms by (simp add: div_pos_pos_trivial)
qed

lemma le_digits_range:
  "x \<in> set (le_digits n k) \<Longrightarrow> 0 \<le> x \<and> x < n"
proof (induction n k rule: le_digits.induct)
  case (1 n k)
  show ?case
  proof (cases "k \<le> 0 \<or> n < 2")
    case True
    with 1(2) show ?thesis by (simp add: le_digits.simps)
  next
    case False
    then have eq: "le_digits n k = k mod n # le_digits n (k div n)"
      by (subst le_digits.simps) simp
    with 1 False show ?thesis by auto
  qed
qed

lemma rcrs_result:
  "int_to_states_rcrs depth k n acc = Inr res \<Longrightarrow> 0 \<le> k \<Longrightarrow> 2 \<le> n
     \<Longrightarrow> res = acc @ le_digits n k"
proof (induction depth arbitrary: k acc)
  case 0
  then show ?case by simp
next
  case (Suc depth)
  show ?case
  proof (cases "k = 0")
    case True
    with Suc.prems(1) show ?thesis by (simp add: le_digits_zero)
  next
    case False
    with Suc.prems have pos: "0 < k" and n0: "n \<noteq> 0" by auto
    from Suc.prems(1) False n0
    have run: "int_to_states_rcrs depth (k div n) n (acc @ [k mod n]) = Inr res" by simp
    have "0 \<le> k div n" using Suc.prems(2,3) by (simp add: pos_imp_zdiv_nonneg_iff)
    from Suc.IH[OF run this Suc.prems(3)]
    show ?thesis using pos Suc.prems(3) by (simp add: le_digits_pos)
  qed
qed

lemma rcrs_returns:
  "0 \<le> k \<Longrightarrow> 2 \<le> n \<Longrightarrow> length (le_digits n k) < depth
     \<Longrightarrow> int_to_states_rcrs depth k n acc = Inr (acc @ le_digits n k)"
proof (induction depth arbitrary: k acc)
  case 0
  then show ?case by simp
next
  case (Suc depth)
  show ?case
  proof (cases "k = 0")
    case True
    then show ?thesis by (simp add: le_digits_zero)
  next
    case False
    with Suc.prems have pos: "0 < k" and n0: "n \<noteq> 0" by auto
    have eq: "le_digits n k = k mod n # le_digits n (k div n)"
      using pos Suc.prems(2) by (rule le_digits_pos)
    have "0 \<le> k div n" using Suc.prems(1,2) by (simp add: pos_imp_zdiv_nonneg_iff)
    moreover have "length (le_digits n (k div n)) < depth" using Suc.prems(3) eq by simp
    ultimately have "int_to_states_rcrs depth (k div n) n (acc @ [k mod n])
                        = Inr ((acc @ [k mod n]) @ le_digits n (k div n))"
      using Suc.prems(2) by (intro Suc.IH)
    then show ?thesis using False n0 eq by simp
  qed
qed

lemma rcrs_overflow:
  "0 \<le> k \<Longrightarrow> 2 \<le> n \<Longrightarrow> depth \<le> length (le_digits n k)
     \<Longrightarrow> int_to_states_rcrs depth k n acc = Inl RecursionError"
proof (induction depth arbitrary: k acc)
  case 0
  then show ?case by simp
next
  case (Suc depth)
  from Suc.prems(3) have "le_digits n k \<noteq> []" by auto
  then have k0: "k \<noteq> 0" by (auto simp: le_digits_zero)
  with Suc.prems have pos: "0 < k" and n0: "n \<noteq> 0" by auto
  have eq: "le_digits n k = k mod n # le_digits n (k div n)"
    using pos Suc.prems(2) by (rule le_digits_pos)
  have "0 \<le> k div n" using Suc.prems(1,2) by (simp add: pos_imp_zdiv_nonneg_iff)
  moreover have "depth \<le> length (le_digits n (k div n))" using Suc.prems(3) eq by simp
  ultimately have "int_to_states_rcrs depth (k div n) n (acc @ [k mod n]) = Inl RecursionError"
    using Suc.prems(2) by (intro Suc.IH)
  then show ?case using k0 n0 by simp
qed

lemma le_digits_long:
  "2 \<le> n \<Longrightarrow> n ^ d \<le> k \<Longrightarrow> d < length (le_digits n k)"
proof (induction d arbitrary: k)
  case 0
  then have "0 < k" by simp
  with 0 show ?case by (simp add: le_digits_pos)
next
  case (Suc d)
  have npos: "0 < n" using Suc.prems(1) by simp
  have "0 < n ^ Suc d" using npos by simp
  with Suc.prems(2) have pos: "0 < k" by linarith
  have "n ^ d = (n * n ^ d) div n" using npos by simp
  also have "\<dots> \<le> k div n" using Suc.prems(2) npos by (intro zdiv_mono1) simp_all
  finally have "d < length (le_digits n (k div n))" using Suc.prems(1) by (intro Suc.IH)
  then show ?case using pos Suc.prems(1) by (simp add: le_digits_pos)
qed

subsection \<open>Construction from a rule number\<close>

text \<open>
  A rule number in range is decoded when the recursion has more frames than the number
  has digits; the stored table is then the digits followed by zeros.
\<close>

lemma new_CA_number:
  assumes "0 \<le> l" "0 \<le> r" "2 \<le> n" "0 \<le> k" "k \<le> n ^ nat (n ^ nat (l + r + 1)) - 1"
    and "length (le_digits n k) < depth"
  shows "new_CA depth (RuleNumber k) (l, r) n =
           Inr \<lparr>nhd = (l, r), n_states = n, in_size = l + r + 1,
                rule = le_digits n k @
                       replicate (nat (n ^ nat (l + r + 1)) - length (le_digits n k)) 0,
                max_rule_ix = n ^ nat (l + r + 1)\<rparr>"
proof -
  let ?T = "n ^ nat (l + r + 1)"
  let ?ds = "le_digits n k"
  have Tpos: "0 < ?T" using assms(3) by simp
  have "k < n ^ nat ?T" using assms(5) by simp
  then have len: "length ?ds \<le> nat ?T"
    using assms(3,4) by (rule_tac le_digits_length) auto
  have rcrs: "int_to_states_rcrs depth k n [] = Inr ?ds"
    using rcrs_returns[OF assms(4) assms(3) assms(6), of "[]"] by simp
  have "(if ?T - int (length ?ds) > 0 then ?ds @ zeros (?T - int (length ?ds)) else ?ds)
          = ?ds @ replicate (nat ?T - length ?ds) 0"
    using len Tpos by (auto simp: zeros_def nat_diff_distrib')
  then have "int_to_states depth n (l + r + 1) k
               = Inr (?ds @ replicate (nat ?T - length ?ds) 0)"
    by (simp add: int_to_states_def rcrs Let_def)
  then show ?thesis
    using assms by (simp add: new_CA_def Let_def)
qed

text \<open>With no more frames than digits, construction ends in \<open>RecursionError\<close>.\<close>

lemma new_CA_number_overflow:
  assumes "0 \<le> l" "0 \<le> r" "2 \<le> n" "0 \<le> k" "k \<le> n ^ nat (n ^ nat (l + r + 1)) - 1"
    and "depth \<le> length (le_digits n k)"
  shows "new_CA depth (RuleNumber k) (l, r) n = Inl RecursionError"
proof -
  have "int_to_states_rcrs depth k n [] = Inl RecursionError"
    using assms(4,3,6) by (rule rcrs_overflow)
  then have "int_to_states depth n (l + r + 1) k = Inl RecursionError"
    by (simp add: int_to_states_def)
  then show ?thesis using assms by (simp add: new_CA_def Let_def)
qed

text \<open>
  The guard of \<open>__init__\<close>: \<open>RuleNumberOutOfRange\<close> is raised exactly for the numbers
  outside \<open>0 .. n_states ^ (n_states ^ in_size) - 1\<close>.
\<close>

lemma rule_number_guard:
  assumes "2 \<le> n" "0 \<le> l" "0 \<le> r"
  shows "new_CA depth (RuleNumber k) (l, r) n = Inl RuleNumberOutOfRange
           \<longleftrightarrow> k < 0 \<or> k > n ^ nat (n ^ nat (l + r + 1)) - 1"
proof (cases "k < 0 \<or> k > n ^ nat (n ^ nat (l + r + 1)) - 1")
  case True
  then show ?thesis using assms by (simp add: new_CA_def Let_def)
next
  case False
  then have rng: "0 \<le> k" "k \<le> n ^ nat (n ^ nat (l + r + 1)) - 1" by auto
  show ?thesis
  proof (cases "length (le_digits n k) < depth")
    case True
    from new_CA_number[OF assms(2,3,1) rng True] False show ?thesis by simp
  next
    case deep: False
    then have "depth \<le> length (le_digits n k)" by simp
    from new_CA_number_overflow[OF assms(2,3,1) rng this] False show ?thesis by simp
  qed
qed

text \<open>
  What a decoded table holds: entry \<open>i\<close> is the digit of \<open>k\<close> of weight \<open>n_states ^ i\<close>,
  the entries beyond the digits are zero, and the table of rule number 0 is all zeros.
\<close>

lemma wolfram_decoding_within_depth:
  assumes "2 \<le> n" "0 \<le> l" "0 \<le> r" "0 \<le> k" "k \<le> n ^ nat (n ^ nat (l + r + 1)) - 1"
    and "length (le_digits n k) < depth"
  shows "\<exists>ca. new_CA depth (RuleNumber k) (l, r) n = Inr ca
            \<and> int (length (rule ca)) = n ^ nat (l + r + 1)
            \<and> (\<forall>i < length (rule ca). rule ca ! i = (k div n ^ i) mod n)
            \<and> (\<forall>i < length (rule ca). k < n ^ i \<longrightarrow> rule ca ! i = 0)
            \<and> (k = 0 \<longrightarrow> rule ca = replicate (nat (n ^ nat (l + r + 1))) 0)"
proof -
  let ?T = "n ^ nat (l + r + 1)"
  let ?ds = "le_digits n k"
  let ?tbl = "?ds @ replicate (nat ?T - length ?ds) 0"
  have Tpos: "0 < ?T" using assms(1) by simp
  have "k < n ^ nat ?T" using assms(5) by simp
  then have len: "length ?ds \<le> nat ?T"
    using assms(1,4) by (rule_tac le_digits_length) auto
  have tlen: "length ?tbl = nat ?T" using len by simp
  have digit: "?tbl ! i = (k div n ^ i) mod n" if "i < nat ?T" for i
  proof (cases "i < length ?ds")
    case True
    then show ?thesis by (simp add: nth_append le_digits_nth)
  next
    case False
    then have "k div n ^ i = 0" using assms(1,4) by (simp add: le_digits_beyond)
    then show ?thesis using False that by (simp add: nth_append)
  qed
  have small: "?tbl ! i = 0" if "i < nat ?T" "k < n ^ i" for i
    using digit[OF that(1)] that(2) assms(4) by simp
  have zero: "?tbl = replicate (nat ?T) 0" if "k = 0"
    using that by (simp add: le_digits_zero)
  show ?thesis
    using new_CA_number[OF assms(2,3,1,4,5,6)] tlen digit small zero Tpos by simp
qed

text \<open>
  Claim C1 says that construction decodes every rule number between 0 and
  \<open>n_states ^ (n_states ^ in_size) - 1\<close>. The source decodes by a recursion that is one
  call deep per digit, so it decodes a number only while its digits fit the recursion
  depth (lemma \<open>wolfram_decoding_within_depth\<close>). With two states and radii \<open>(4, 5)\<close> the
  rule number \<open>2 ^ 1023\<close> lies in the range and has 1024 digits: even with all 1000 frames
  of the default recursion limit left to the recursion, construction raises
  \<open>RecursionError\<close> and produces no table.
\<close>

theorem wolfram_decoding_recursion_limit:
  "(2::int) \<le> 2 \<and> (0::int) \<le> 4 \<and> (0::int) \<le> 5
   \<and> (0::int) \<le> 2 ^ 1023 \<and> (2::int) ^ 1023 \<le> 2 ^ nat (2 ^ nat (4 + 5 + 1)) - 1
   \<and> new_CA 1000 (RuleNumber (2 ^ 1023)) (4, 5) 2 = Inl RecursionError"
proof -
  have rng: "(0::int) \<le> 2 ^ 1023" "(2::int) ^ 1023 \<le> 2 ^ nat (2 ^ nat (4 + 5 + 1)) - 1"
    by simp_all
  have "1023 < length (le_digits 2 (2 ^ 1023))"
    by (rule le_digits_long) simp_all
  then have "1000 \<le> length (le_digits 2 (2 ^ 1023))" by simp
  from new_CA_number_overflow[OF _ _ _ rng this] rng show ?thesis by simp
qed

subsection \<open>Construction\<close>

lemma new_CA_table:
  assumes "0 \<le> l" "0 \<le> r" "2 \<le> n" "int (length tbl) = n ^ nat (l + r + 1)"
    "\<forall>x \<in> set tbl. 0 \<le> x \<and> x < n"
  shows "new_CA depth (RuleTable tbl) (l, r) n =
           Inr \<lparr>nhd = (l, r), n_states = n, in_size = l + r + 1,
                rule = tbl, max_rule_ix = n ^ nat (l + r + 1)\<rparr>"
  using assms by (simp add: new_CA_def Let_def list_all_iff)

lemma new_CA_success:
  assumes "new_CA depth rl nh n = Inr ca"
  shows "0 \<le> fst nh \<and> 0 \<le> snd nh \<and> 2 \<le> n \<and> nhd ca = nh \<and> n_states ca = n
         \<and> in_size ca = fst nh + snd nh + 1
         \<and> int (length (rule ca)) = n ^ nat (fst nh + snd nh + 1)
         \<and> (\<forall>x \<in> set (rule ca). 0 \<le> x \<and> x < n)"
proof -
  from assms have shape: "0 \<le> fst nh" "0 \<le> snd nh" "2 \<le> n"
    by (auto simp: new_CA_def split: if_splits)
  show ?thesis
  proof (cases rl)
    case (RuleNumber k)
    with assms shape have rng: "0 \<le> k" "k \<le> n ^ nat (n ^ nat (fst nh + snd nh + 1)) - 1"
      by (auto simp: new_CA_def Let_def split: if_splits)
    let ?T = "n ^ nat (fst nh + snd nh + 1)"
    have "k < n ^ nat ?T" using rng(2) by simp
    then have len: "length (le_digits n k) \<le> nat ?T"
      using shape(3) rng(1) by (rule_tac le_digits_length) auto
    have Tpos: "0 < ?T" using shape(3) by simp
    have deep: "length (le_digits n k) < depth"
    proof (rule ccontr)
      assume "\<not> length (le_digits n k) < depth"
      then have "depth \<le> length (le_digits n k)" by simp
      from new_CA_number_overflow[OF shape(1,2,3) rng this] assms RuleNumber
      show False by simp
    qed
    from new_CA_number[OF shape(1,2,3) rng deep] assms RuleNumber
    have ca: "ca = \<lparr>nhd = nh, n_states = n, in_size = fst nh + snd nh + 1,
                      rule = le_digits n k @ replicate (nat ?T - length (le_digits n k)) 0,
                      max_rule_ix = ?T\<rparr>"
      by simp
    have "\<forall>x \<in> set (rule ca). 0 \<le> x \<and> x < n"
      using shape(3) by (auto simp: ca dest: le_digits_range)
    moreover have "int (length (rule ca)) = ?T" using len Tpos by (simp add: ca)
    ultimately show ?thesis using shape by (simp add: ca)
  next
    case (RuleTable tbl)
    with assms shape show ?thesis
      by (auto simp: new_CA_def Let_def list_all_iff split: if_splits)
  qed
qed

text \<open>
  Rule 90 on two states with radii \<open>(1, 1)\<close>, built from its number and from its table,
  with the frames of the default recursion limit.
\<close>

lemma rule90_by_number:
  "new_CA 1000 (RuleNumber 90) (1, 1) 2 =
     Inr \<lparr>nhd = (1, 1), n_states = 2, in_size = 3,
          rule = [0, 1, 0, 1, 1, 0, 1, 0], max_rule_ix = 8\<rparr>"
  by (simp add: new_CA_number le_digits.simps)

lemma rule90_by_table:
  "new_CA 1000 (RuleTable [0, 1, 0, 1, 1, 0, 1, 0]) (1, 1) 2 =
     Inr \<lparr>nhd = (1, 1), n_states = 2, in_size = 3,
          rule = [0, 1, 0, 1, 1, 0, 1, 0], max_rule_ix = 8\<rparr>"
  by (simp add: new_CA_def)

text \<open>
  Claim C8 says that construction fails with \<open>RuleNumberOutOfRange\<close> exactly for the rule
  numbers outside the range and succeeds by decoding for every other integer. The first
  half holds (lemma \<open>rule_number_guard\<close>), and a number in range is decoded when the
  recursion has frames enough (lemma \<open>new_CA_number\<close>). The second half does not hold:
  with two states and radii \<open>(4, 5)\<close> the largest rule number \<open>2 ^ 1024 - 1\<close> passes the
  guard, and construction raises \<open>RecursionError\<close> even with all 1000 frames of the default
  recursion limit left to the recursion.
\<close>

theorem rule_number_in_range_recursion_limit:
  "(2::int) \<le> 2 \<and> (0::int) \<le> 4 \<and> (0::int) \<le> 5
   \<and> (0::int) \<le> 2 ^ 1024 - 1 \<and> (2::int) ^ 1024 - 1 \<le> 2 ^ nat (2 ^ nat (4 + 5 + 1)) - 1
   \<and> new_CA 1000 (RuleNumber (2 ^ 1024 - 1)) (4, 5) 2 = Inl RecursionError"
proof -
  have rng: "(0::int) \<le> 2 ^ 1024 - 1" "(2::int) ^ 1024 - 1 \<le> 2 ^ nat (2 ^ nat (4 + 5 + 1)) - 1"
    by simp_all
  have "1023 < length (le_digits 2 (2 ^ 1024 - 1))"
    by (rule le_digits_long) simp_all
  then have "1000 \<le> length (le_digits 2 (2 ^ 1024 - 1))" by simp
  from new_CA_number_overflow[OF _ _ _ rng this] rng show ?thesis by simp
qed

text \<open>
  Claim C9. After every successful construction, from a rule number or from an explicit
  table, the stored rule table has length \<open>n_states ^ (left + right + 1)\<close> and each of its
  entries lies in \<open>[0, n_states)\<close>. The branch for a rule number performs no check of the
  entries: there the bounds follow from the digits that the decoding produces.
\<close>

theorem configuration_invariants:
  assumes "new_CA depth rl (l, r) n = Inr ca"
  shows "int (length (rule ca)) = n ^ nat (l + r + 1) \<and> (\<forall>x \<in> set (rule ca). 0 \<le> x \<and> x < n)"
  using new_CA_success[OF assms] by simp

theorem configuration_invariants_witness:
  "new_CA 1000 (RuleNumber 90) (1, 1) 2 =
     Inr \<lparr>nhd = (1, 1), n_states = 2, in_size = 3,
          rule = [0, 1, 0, 1, 1, 0, 1, 0], max_rule_ix = 8\<rparr>
   \<and> int (length [0, 1, 0, 1, 1, 0, 1, 0 :: int]) = 2 ^ nat (1 + 1 + 1)
   \<and> list_all (\<lambda>x. 0 \<le> x \<and> x < 2) [0, 1, 0, 1, 1, 0, 1, 0 :: int]"
  using configuration_invariants[OF rule90_by_number] rule90_by_number by simp

subsection \<open>Window encoding\<close>

lemma new_CA_wf: "new_CA depth rl nh n = Inr ca \<Longrightarrow> wf_CA ca"
  using new_CA_success[of depth rl nh n ca] by (simp add: wf_CA_def list_all_iff)

lemma enumerate_index_Cons:
  "sum_list (map (\<lambda>(p, state). state * n ^ (length (x # xs) - p - 1)) (enumerate 0 (x # xs)))
     = x * n ^ length xs
       + sum_list (map (\<lambda>(p, state). state * (n::int) ^ (length xs - p - 1)) (enumerate 0 xs))"
proof -
  have "enumerate (Suc 0) xs = map (\<lambda>(p, s). (Suc p, s)) (enumerate 0 xs)"
    by (auto simp: enumerate_Suc_eq)
  then show ?thesis
    by (simp add: o_def split_def)
qed

lemma enumerate_index_sum:
  "sum_list (map (\<lambda>(p, state). state * n ^ (length xs - p - 1)) (enumerate 0 xs))
     = (\<Sum>p<length xs. xs ! p * (n::int) ^ (length xs - p - 1))"
proof -
  have "enumerate 0 xs = map (\<lambda>p. (p, xs ! p)) [0..<length xs]"
    by (rule nth_equalityI) (simp_all add: nth_enumerate_eq)
  then have "sum_list (map (\<lambda>(p, state). state * n ^ (length xs - p - 1)) (enumerate 0 xs))
      = sum_list (map (\<lambda>p. xs ! p * n ^ (length xs - p - 1)) [0..<length xs])"
    by (simp add: o_def)
  also have "\<dots> = (\<Sum>p<length xs. xs ! p * n ^ (length xs - p - 1))"
    by (simp add: interv_sum_list_conv_sum_set_nat atLeast0LessThan)
  finally show ?thesis .
qed

lemma enumerate_index_bounds:
  assumes "1 \<le> (n::int)" "\<forall>x \<in> set xs. 0 \<le> x \<and> x < n"
  shows "0 \<le> sum_list (map (\<lambda>(p, state). state * n ^ (length xs - p - 1)) (enumerate 0 xs))
       \<and> sum_list (map (\<lambda>(p, state). state * n ^ (length xs - p - 1)) (enumerate 0 xs))
           < n ^ length xs"
  using assms(2)
proof (induction xs)
  case Nil
  then show ?case by simp
next
  case (Cons x xs)
  let ?r = "sum_list (map (\<lambda>(p, state). state * n ^ (length xs - p - 1)) (enumerate 0 xs))"
  from Cons have r: "0 \<le> ?r" "?r < n ^ length xs" and x: "0 \<le> x" "x + 1 \<le> n" by auto
  have pw: "0 < n ^ length xs" using assms(1) by simp
  have "x * n ^ length xs + ?r < (x + 1) * n ^ length xs"
    using r(2) by (simp add: algebra_simps)
  also have "\<dots> \<le> n * n ^ length xs"
    using x(2) pw by (simp add: mult_right_mono)
  finally have "x * n ^ length xs + ?r < n ^ length (x # xs)" by simp
  moreover have "0 \<le> x * n ^ length xs + ?r" using x(1) r(1) pw by simp
  ultimately show ?case by (simp only: enumerate_index_Cons) 
qed

lemma neighborhood_to_index_valid:
  assumes "valid_states ca w"
  shows "neighborhood_to_index ca w
           = Inr (\<Sum>p<length w. w ! p * n_states ca ^ (length w - p - 1))"
proof -
  have "\<not> list_ex (\<lambda>state. state < 0 \<or> n_states ca \<le> state) w"
    using assms by (auto simp: valid_states_def list_all_iff list_ex_iff)
  then have "neighborhood_to_index ca w
      = Inr (sum_list (map (\<lambda>(p, state). state * n_states ca ^ (length w - p - 1))
                            (enumerate 0 w)))"
    by (simp add: neighborhood_to_index_def states_in_bounds_def)
  then show ?thesis by (simp only: enumerate_index_sum)
qed

lemma window_index_bounds:
  assumes "1 \<le> n_states ca" "valid_states ca w"
  shows "0 \<le> (\<Sum>p<length w. w ! p * n_states ca ^ (length w - p - 1))"
    and "(\<Sum>p<length w. w ! p * n_states ca ^ (length w - p - 1)) < n_states ca ^ length w"
proof -
  have "\<forall>x \<in> set w. 0 \<le> x \<and> x < n_states ca"
    using assms(2) by (simp add: valid_states_def list_all_iff)
  from enumerate_index_bounds[OF assms(1) this]
  show "0 \<le> (\<Sum>p<length w. w ! p * n_states ca ^ (length w - p - 1))"
    and "(\<Sum>p<length w. w ! p * n_states ca ^ (length w - p - 1)) < n_states ca ^ length w"
    by (simp_all only: enumerate_index_sum)
qed

lemma slice_window:
  assumes "0 \<le> w" "int i + w \<le> int (length xs)"
  shows "slice xs (int i) (int i + w) = take (nat w) (drop i xs)"
proof -
  have "slice_bound (length xs) (int i) = i" using assms by (simp add: slice_bound_def)
  moreover have "slice_bound (length xs) (int i + w) = i + nat w"
    using assms by (simp add: slice_bound_def nat_add_distrib)
  ultimately show ?thesis by (simp add: slice_def Let_def)
qed

subsection \<open>A single step on a valid sequence\<close>

lemma valid_states_iff: "valid_states ca sq \<longleftrightarrow> (\<forall>x \<in> set sq. 0 \<le> x \<and> x < n_states ca)"
  by (simp add: valid_states_def list_all_iff)

lemma neighborhood_to_index_big_endian:
  "valid_states ca w \<Longrightarrow> neighborhood_to_index ca w = Inr (big_endian_index (n_states ca) w)"
  by (simp add: neighborhood_to_index_valid big_endian_index_def)

lemma big_endian_index_bounds:
  assumes "1 \<le> n_states ca" "valid_states ca w"
  shows "0 \<le> big_endian_index (n_states ca) w"
    and "big_endian_index (n_states ca) w < n_states ca ^ length w"
  using window_index_bounds[OF assms] by (simp_all add: big_endian_index_def)

lemma window_lookup:
  assumes "wf_CA ca" "valid_states ca w" "int (length w) = in_size ca"
  shows "list_index (rule ca) (big_endian_index (n_states ca) w)
           = Inr (rule ca ! nat (big_endian_index (n_states ca) w))"
proof -
  have n1: "1 \<le> n_states ca" using assms(1) by (simp add: wf_CA_def)
  have "nat (in_size ca) = length w" using assms(3) by simp
  then have "int (length (rule ca)) = n_states ca ^ length w"
    using assms(1) by (simp add: wf_CA_def)
  with big_endian_index_bounds[OF n1 assms(2)] show ?thesis
    by (simp add: list_index_def)
qed

lemma apply_windows_valid:
  assumes "wf_CA ca" "valid_states ca seq'"
    "\<forall>i \<in> set starts. int i + in_size ca \<le> int (length seq')"
  shows "apply_windows ca seq' starts out
           = Inr (out @ map (\<lambda>i. rule ca ! nat (big_endian_index (n_states ca)
                                         (take (nat (in_size ca)) (drop i seq')))) starts)"
  using assms(3)
proof (induction starts arbitrary: out)
  case Nil
  then show ?case by simp
next
  case (Cons i starts)
  let ?w = "take (nat (in_size ca)) (drop i seq')"
  have w0: "0 \<le> in_size ca" using assms(1) by (simp add: wf_CA_def)
  have fit: "int i + in_size ca \<le> int (length seq')" using Cons.prems by simp
  have sl: "slice seq' (int i) (int i + in_size ca) = ?w"
    using w0 fit by (rule slice_window)
  have vw: "valid_states ca ?w"
    using assms(2) by (auto simp: valid_states_iff dest: in_set_takeD in_set_dropD)
  have lw: "int (length ?w) = in_size ca" using w0 fit by simp
  have ix: "neighborhood_to_index ca ?w = Inr (big_endian_index (n_states ca) ?w)"
    using vw by (rule neighborhood_to_index_big_endian)
  have lk: "list_index (rule ca) (big_endian_index (n_states ca) ?w)
              = Inr (rule ca ! nat (big_endian_index (n_states ca) ?w))"
    using assms(1) vw lw by (rule window_lookup)
  have "apply_windows ca seq' (i # starts) out
          = apply_windows ca seq' starts
              (out @ [rule ca ! nat (big_endian_index (n_states ca) ?w)])"
    by (simp add: sl ix lk)
  also have "\<dots> = Inr ((out @ [rule ca ! nat (big_endian_index (n_states ca) ?w)]) @
             map (\<lambda>i. rule ca ! nat (big_endian_index (n_states ca)
                                         (take (nat (in_size ca)) (drop i seq')))) starts)"
    using Cons.prems by (intro Cons.IH) simp
  finally show ?case by simp
qed

lemma apply_rule_unpadded:
  assumes "wf_CA ca" "valid_states ca sq" "in_size ca \<le> int (length sq)"
  shows "apply_rule ca sq False
           = Inr (map (\<lambda>i. rule ca ! nat (big_endian_index (n_states ca)
                                         (take (nat (in_size ca)) (drop i sq))))
                      [0 ..< nat (int (length sq) - in_size ca + 1)])"
proof -
  have "\<forall>i \<in> set [0 ..< nat (int (length sq) - in_size ca + 1)].
          int i + in_size ca \<le> int (length sq)"
    by auto
  from apply_windows_valid[OF assms(1,2) this, of "[]"] show ?thesis
    using assms(2,3) by (simp add: apply_rule_def valid_states_def)
qed

lemma apply_rule_padded:
  assumes "wf_CA ca" "valid_states ca sq"
  shows "apply_rule ca sq True
           = Inr (map (\<lambda>i. rule ca ! nat (big_endian_index (n_states ca)
                       (take (nat (in_size ca))
                          (drop i (zeros (fst (nhd ca)) @ sq @ zeros (snd (nhd ca)))))))
                      [0 ..< length sq])"
proof -
  let ?s = "zeros (fst (nhd ca)) @ sq @ zeros (snd (nhd ca))"
  have shape: "0 \<le> fst (nhd ca)" "0 \<le> snd (nhd ca)" "2 \<le> n_states ca"
    "in_size ca = fst (nhd ca) + snd (nhd ca) + 1"
    using assms(1) by (simp_all add: wf_CA_def)
  have len: "int (length ?s) = int (length sq) + in_size ca - 1"
    using shape by (simp add: zeros_def)
  then have cnt: "nat (int (length ?s) - in_size ca + 1) = length sq" by simp
  have vs: "valid_states ca ?s"
    using assms(2) shape(3) by (auto simp: valid_states_iff zeros_def)
  have "\<forall>i \<in> set [0 ..< length sq]. int i + in_size ca \<le> int (length ?s)"
    using len by auto
  from apply_windows_valid[OF assms(1) vs this, of "[]"] show ?thesis
    using assms(2) cnt by (simp add: apply_rule_def valid_states_def)
qed

lemma apply_rule_length_padded:
  "wf_CA ca \<Longrightarrow> valid_states ca sq \<Longrightarrow> apply_rule ca sq True = Inr out \<Longrightarrow> length out = length sq"
  by (auto simp: apply_rule_padded)

lemma apply_rule_length_unpadded:
  "wf_CA ca \<Longrightarrow> valid_states ca sq \<Longrightarrow> in_size ca \<le> int (length sq)
     \<Longrightarrow> apply_rule ca sq False = Inr out
     \<Longrightarrow> int (length out) = int (length sq) - in_size ca + 1"
  by (auto simp: apply_rule_unpadded)

lemma window_length:
  "0 \<le> w \<Longrightarrow> int i + w \<le> int (length xs) \<Longrightarrow> int (length (take (nat w) (drop i xs))) = w"
  by simp

lemma window_entry_valid:
  assumes "wf_CA ca" "valid_states ca w" "int (length w) = in_size ca"
  shows "0 \<le> rule ca ! nat (big_endian_index (n_states ca) w)
       \<and> rule ca ! nat (big_endian_index (n_states ca) w) < n_states ca"
proof -
  have n1: "1 \<le> n_states ca" using assms(1) by (simp add: wf_CA_def)
  have "nat (in_size ca) = length w" using assms(3) by simp
  then have "int (length (rule ca)) = n_states ca ^ length w"
    using assms(1) by (simp add: wf_CA_def)
  with big_endian_index_bounds[OF n1 assms(2)]
  have "nat (big_endian_index (n_states ca) w) < length (rule ca)" by simp
  then have "rule ca ! nat (big_endian_index (n_states ca) w) \<in> set (rule ca)" by simp
  then show ?thesis using assms(1) by (simp add: wf_CA_def list_all_iff)
qed

lemma apply_rule_valid_output:
  assumes "wf_CA ca" "apply_rule ca sq pre_pad = Inr out"
  shows "valid_states ca out"
proof -
  have vs: "valid_states ca sq"
    using assms(2) by (auto simp: apply_rule_def valid_states_def split: if_splits)
  have shape: "0 \<le> fst (nhd ca)" "0 \<le> snd (nhd ca)" "2 \<le> n_states ca"
    "in_size ca = fst (nhd ca) + snd (nhd ca) + 1"
    using assms(1) by (simp_all add: wf_CA_def)
  show ?thesis
  proof (cases pre_pad)
    case True
    let ?s = "zeros (fst (nhd ca)) @ sq @ zeros (snd (nhd ca))"
    have len: "int (length ?s) = int (length sq) + in_size ca - 1"
      using shape by (simp add: zeros_def)
    have vp: "valid_states ca ?s"
      using vs shape(3) by (auto simp: valid_states_iff zeros_def)
    have "0 \<le> rule ca ! nat (big_endian_index (n_states ca) (take (nat (in_size ca)) (drop i ?s)))
        \<and> rule ca ! nat (big_endian_index (n_states ca) (take (nat (in_size ca)) (drop i ?s)))
            < n_states ca" if "i < length sq" for i
    proof (rule window_entry_valid[OF assms(1)])
      show "valid_states ca (take (nat (in_size ca)) (drop i ?s))"
        using vp by (auto simp: valid_states_iff dest: in_set_takeD in_set_dropD)
      have "0 \<le> in_size ca" "int i + in_size ca \<le> int (length ?s)"
        using len that shape by linarith+
      then show "int (length (take (nat (in_size ca)) (drop i ?s))) = in_size ca"
        by (rule window_length)
    qed
    then show ?thesis
      using assms(2) True apply_rule_padded[OF assms(1) vs]
      by (auto simp: valid_states_iff)
  next
    case False
    with assms(2) have fit: "in_size ca \<le> int (length sq)"
      by (auto simp: apply_rule_def split: if_splits)
    have "0 \<le> rule ca ! nat (big_endian_index (n_states ca) (take (nat (in_size ca)) (drop i sq)))
        \<and> rule ca ! nat (big_endian_index (n_states ca) (take (nat (in_size ca)) (drop i sq)))
            < n_states ca" if "i < nat (int (length sq) - in_size ca + 1)" for i
    proof (rule window_entry_valid[OF assms(1)])
      show "valid_states ca (take (nat (in_size ca)) (drop i sq))"
        using vs by (auto simp: valid_states_iff dest: in_set_takeD in_set_dropD)
      show "int (length (take (nat (in_size ca)) (drop i sq))) = in_size ca"
        using fit that shape by simp
    qed
    then show ?thesis
      using assms(2) False apply_rule_unpadded[OF assms(1) vs fit]
      by (auto simp: valid_states_iff)
  qed
qed

text \<open>
  Claim C2. Let the automaton be built from an explicit rule table \<open>T\<close>, and let \<open>w\<close> be a
  window of \<open>window_size\<close> states in \<open>[0, n_states)\<close>, the one at position \<open>i\<close> of a
  sequence \<open>sq\<close> (\<open>sq = w\<close> and \<open>i = 0\<close> give any window). Then \<open>T\<close> is the stored table,
  the index computed for \<open>w\<close> is the big-endian sum of \<open>w[p] * n_states ^ (window_size - p - 1)\<close>,
  it is a position of \<open>T\<close>, and the step without input padding puts at position \<open>i\<close> of its
  output exactly the entry of \<open>T\<close> at that index.
\<close>

theorem window_round_trip:
  assumes "new_CA depth (RuleTable T) (l, r) n = Inr ca"
    and "\<forall>x \<in> set sq. 0 \<le> x \<and> x < n"
    and "int i + (l + r + 1) \<le> int (length sq)"
    and "w = take (nat (l + r + 1)) (drop i sq)"
  shows "rule ca = T
       \<and> neighborhood_to_index ca w = Inr (\<Sum>p<length w. w ! p * n ^ (length w - p - 1))
       \<and> 0 \<le> (\<Sum>p<length w. w ! p * n ^ (length w - p - 1))
       \<and> (\<Sum>p<length w. w ! p * n ^ (length w - p - 1)) < int (length T)
       \<and> (\<exists>out. apply_rule ca sq False = Inr out \<and> i < length out
                \<and> out ! i = T ! nat (\<Sum>p<length w. w ! p * n ^ (length w - p - 1)))"
proof -
  note s = new_CA_success[OF assms(1)]
  have wf: "wf_CA ca" using assms(1) by (rule new_CA_wf)
  have fields: "n_states ca = n" "in_size ca = l + r + 1" using s by simp_all
  have tbl: "rule ca = T"
    using assms(1) by (auto simp: new_CA_def Let_def split: if_splits)
  have vs: "valid_states ca sq" using assms(2) by (simp add: valid_states_iff fields)
  have vw: "valid_states ca w"
    using vs assms(4) by (auto simp: valid_states_iff dest: in_set_takeD in_set_dropD)
  have lw: "int (length w) = in_size ca" using assms(3,4) s by (simp add: fields)
  have n1: "1 \<le> n_states ca" using s by simp
  have idx: "neighborhood_to_index ca w = Inr (big_endian_index n w)"
    using neighborhood_to_index_big_endian[OF vw] by (simp add: fields)
  have "int (length T) = n ^ length w"
    using s lw tbl fields by (metis nat_int)
  with big_endian_index_bounds[OF n1 vw]
  have bnd: "0 \<le> big_endian_index n w" "big_endian_index n w < int (length T)"
    by (simp_all add: fields)
  have fit: "in_size ca \<le> int (length sq)" using assms(3) fields by simp
  have pos: "i < nat (int (length sq) - in_size ca + 1)" using assms(3) fields by simp
  have stp: "\<exists>out. apply_rule ca sq False = Inr out \<and> i < length out
                \<and> out ! i = T ! nat (big_endian_index n w)"
    using apply_rule_unpadded[OF wf vs fit] pos assms(4) by (simp add: fields tbl)
  show ?thesis
    using tbl idx bnd stp by (simp add: big_endian_index_def)
qed

text \<open>
  Claim C7. For an automaton returned by the constructor, a step without input padding
  fails with \<open>SequenceTooShort\<close> exactly when the sequence is shorter than the window (a
  step with input padding never does); a step fails with \<open>StateOutOfRange\<close> exactly when
  the length check does not fire and some value lies outside \<open>[0, n_states)\<close>. The length
  check comes first: a sequence of length \<open>window_size - 1\<close>, and a too short sequence with
  an out-of-range value, fail with \<open>SequenceTooShort\<close>.
\<close>

theorem single_step_failures:
  assumes "new_CA depth rl (l, r) n = Inr ca"
  shows "(apply_rule ca sq False = Inl SequenceTooShort \<longleftrightarrow> int (length sq) < l + r + 1)
       \<and> apply_rule ca sq True \<noteq> Inl SequenceTooShort
       \<and> (apply_rule ca sq pre_pad = Inl StateOutOfRange \<longleftrightarrow>
            (pre_pad \<or> l + r + 1 \<le> int (length sq)) \<and> (\<exists>x \<in> set sq. x < 0 \<or> n \<le> x))
       \<and> (int (length sq) = l + r \<longrightarrow> apply_rule ca sq False = Inl SequenceTooShort)
       \<and> (int (length sq) < l + r + 1 \<and> (\<exists>x \<in> set sq. x < 0 \<or> n \<le> x) \<longrightarrow>
            apply_rule ca sq False = Inl SequenceTooShort)"
proof -
  note s = new_CA_success[OF assms(1)]
  have wf: "wf_CA ca" using assms(1) by (rule new_CA_wf)
  have fields: "n_states ca = n" "in_size ca = l + r + 1" using s by simp_all
  have short: "apply_rule ca sq False = Inl SequenceTooShort" if "int (length sq) < l + r + 1"
    using that by (simp add: apply_rule_def fields)
  have bad: "apply_rule ca sq p = Inl StateOutOfRange"
    if "p \<or> l + r + 1 \<le> int (length sq)" "\<exists>x \<in> set sq. x < 0 \<or> n \<le> x" for p
    using that by (auto simp: apply_rule_def fields list_all_iff)
  have good: "\<exists>out. apply_rule ca sq p = Inr out"
    if "p \<or> l + r + 1 \<le> int (length sq)" "\<not> (\<exists>x \<in> set sq. x < 0 \<or> n \<le> x)" for p
  proof -
    have vs: "valid_states ca sq" using that(2) by (auto simp: valid_states_iff fields)
    show ?thesis
    proof (cases p)
      case True
      then show ?thesis using apply_rule_padded[OF wf vs] by simp
    next
      case False
      with that(1) have "in_size ca \<le> int (length sq)" by (simp add: fields)
      from apply_rule_unpadded[OF wf vs this] False show ?thesis by simp
    qed
  qed
  have c1: "apply_rule ca sq False = Inl SequenceTooShort \<longleftrightarrow> int (length sq) < l + r + 1"
    using short bad[of False] good[of False] by (cases "\<exists>x \<in> set sq. x < 0 \<or> n \<le> x") force+
  have c2: "apply_rule ca sq True \<noteq> Inl SequenceTooShort"
    using bad[of True] good[of True] by (cases "\<exists>x \<in> set sq. x < 0 \<or> n \<le> x") force+
  have c3: "apply_rule ca sq pre_pad = Inl StateOutOfRange \<longleftrightarrow>
            (pre_pad \<or> l + r + 1 \<le> int (length sq)) \<and> (\<exists>x \<in> set sq. x < 0 \<or> n \<le> x)"
  proof (cases "pre_pad \<or> l + r + 1 \<le> int (length sq)")
    case True
    then show ?thesis using bad[of pre_pad] good[of pre_pad]
      by (cases "\<exists>x \<in> set sq. x < 0 \<or> n \<le> x") force+
  next
    case False
    then have "apply_rule ca sq pre_pad = Inl SequenceTooShort" using short by auto
    with False show ?thesis by simp
  qed
  show ?thesis using c1 c2 c3 short by simp
qed

theorem window_round_trip_witness:
  "new_CA 1000 (RuleTable [0, 1, 0, 1, 1, 0, 1, 0]) (1, 1) 2 =
     Inr \<lparr>nhd = (1, 1), n_states = 2, in_size = 3,
                rule = [0, 1, 0, 1, 1, 0, 1, 0], max_rule_ix = 8\<rparr>
   \<and> list_all (\<lambda>x. 0 \<le> x \<and> x < 2) [0, 1, 0, 0, 0 :: int]
   \<and> neighborhood_to_index
         \<lparr>nhd = (1, 1), n_states = 2, in_size = 3,
          rule = [0, 1, 0, 1, 1, 0, 1, 0], max_rule_ix = 8\<rparr> [1, 0, 0] = Inr 4
   \<and> (\<exists>out. apply_rule
                 \<lparr>nhd = (1, 1), n_states = 2, in_size = 3,
                  rule = [0, 1, 0, 1, 1, 0, 1, 0], max_rule_ix = 8\<rparr> [0, 1, 0, 0, 0] False
               = Inr out \<and> 1 < length out \<and> out ! 1 = 1)"
  using window_round_trip[OF rule90_by_table, of "[0, 1, 0, 0, 0]" 1 "[1, 0, 0]"] rule90_by_table
  by (simp add: lessThan_Suc numeral_3_eq_3)

theorem single_step_failures_witness:
  "new_CA 1000 (RuleNumber 90) (1, 1) 2 =
     Inr \<lparr>nhd = (1, 1), n_states = 2, in_size = 3,
                rule = [0, 1, 0, 1, 1, 0, 1, 0], max_rule_ix = 8\<rparr>
   \<and> apply_rule \<lparr>nhd = (1, 1), n_states = 2, in_size = 3,
                  rule = [0, 1, 0, 1, 1, 0, 1, 0], max_rule_ix = 8\<rparr> [0, 5] False
       = Inl SequenceTooShort
   \<and> apply_rule \<lparr>nhd = (1, 1), n_states = 2, in_size = 3,
                  rule = [0, 1, 0, 1, 1, 0, 1, 0], max_rule_ix = 8\<rparr> [0, 5] True
       = Inl StateOutOfRange"
  using single_step_failures[OF rule90_by_number, of "[0, 5]" True] rule90_by_number
  by simp

subsection \<open>Uniform padding\<close>

lemma padded_row_eq:
  "padded_row ca M s =
     (if M - int (length s) > 0 then
        zeros ((M - int (length s)) div (in_size ca - 1) * fst (nhd ca)
                 + (M - int (length s)) mod (in_size ca - 1) div 2
                 + (M - int (length s)) mod (in_size ca - 1) mod 2)
        @ s @
        zeros ((M - int (length s)) div (in_size ca - 1) * snd (nhd ca)
                 + (M - int (length s)) mod (in_size ca - 1) div 2)
      else s)"
  by (simp add: padded_row_def pad_at_def Let_def)

lemma pad_at_append:
  "pad_at ca M (pre @ s # rest) (length pre, int (length s)) = pre @ padded_row ca M s # rest"
  by (simp add: padded_row_def pad_at_def Let_def)

lemma fold_pad_at:
  "fold (\<lambda>p acc. pad_at ca M acc p)
        (enumerate (length pre) (map (\<lambda>s. int (length s)) rest)) (pre @ rest)
     = pre @ map (padded_row ca M) rest"
proof (induction rest arbitrary: pre)
  case Nil
  then show ?case by simp
next
  case (Cons s rest)
  have "fold (\<lambda>p acc. pad_at ca M acc p)
          (enumerate (length pre) (map (\<lambda>s. int (length s)) (s # rest))) (pre @ s # rest)
        = fold (\<lambda>p acc. pad_at ca M acc p)
            (enumerate (length (pre @ [padded_row ca M s])) (map (\<lambda>s. int (length s)) rest))
            ((pre @ [padded_row ca M s]) @ rest)"
    by (simp add: pad_at_append)
  also have "\<dots> = (pre @ [padded_row ca M s]) @ map (padded_row ca M) rest"
    by (rule Cons.IH)
  finally show ?case by simp
qed

lemma check_all_in_bounds_valid:
  "(\<forall>s \<in> set seqs. valid_states ca s) \<Longrightarrow> check_all_in_bounds (n_states ca) seqs = Inr ()"
  by (induction seqs) (auto simp: states_in_bounds_def valid_states_iff list_ex_iff)

lemma check_all_in_bounds_Inr:
  "check_all_in_bounds (n_states ca) seqs = Inr u \<Longrightarrow> \<forall>s \<in> set seqs. valid_states ca s"
  by (induction seqs)
     (auto simp: states_in_bounds_def valid_states_iff list_ex_iff split: if_splits sum.splits)

lemma fold_max_Max: "xs \<noteq> [] \<Longrightarrow> fold max (tl xs) (hd xs) = Max (set (xs :: int list))"
  using Max.set_eq_fold[of "hd xs" "tl xs"] by simp

lemma fold_min_Min: "xs \<noteq> [] \<Longrightarrow> fold min (tl xs) (hd xs) = Min (set (xs :: int list))"
  using Min.set_eq_fold[of "hd xs" "tl xs"] by simp

lemma pad_output_valid:
  assumes "\<forall>s \<in> set seqs. valid_states ca s" "1 < in_size ca" "seqs \<noteq> []"
  shows "pad_output ca seqs =
           Inr (if Min (set (map (\<lambda>s. int (length s)) seqs))
                     < Max (set (map (\<lambda>s. int (length s)) seqs))
                then map (padded_row ca (Max (set (map (\<lambda>s. int (length s)) seqs)))) seqs
                else seqs)"
proof -
  let ?lens = "map (\<lambda>s. int (length s)) seqs"
  have ne: "?lens \<noteq> []" using assms(3) by simp
  have f: "fold (\<lambda>p acc. pad_at ca M acc p) (enumerate 0 ?lens) seqs = map (padded_row ca M) seqs"
    for M using fold_pad_at[of ca M "[]" seqs] by simp
  show ?thesis
    unfolding pad_output_def check_all_in_bounds_valid[OF assms(1)] Let_def
      fold_max_Max[OF ne] fold_min_Min[OF ne] f
    using assms(2) ne by simp
qed

lemma padded_row_length:
  assumes "wf_CA ca" "1 < in_size ca" "int (length s) \<le> M"
  shows "int (length (padded_row ca M s)) = M"
proof (cases "M - int (length s) > 0")
  case False
  with assms(3) show ?thesis by (simp add: padded_row_eq)
next
  case True
  let ?fill = "M - int (length s)"
  let ?w = "in_size ca - 1"
  have shape: "0 \<le> fst (nhd ca)" "0 \<le> snd (nhd ca)" "?w = fst (nhd ca) + snd (nhd ca)"
    using assms(1) by (simp_all add: wf_CA_def)
  have wpos: "0 < ?w" using assms(2) by simp
  have reps: "0 \<le> ?fill div ?w" using True wpos by (simp add: pos_imp_zdiv_nonneg_iff)
  have extra: "0 \<le> ?fill mod ?w" using wpos by simp
  have eb: "0 \<le> ?fill mod ?w div 2" using extra by simp
  have el: "0 \<le> ?fill mod ?w mod 2" by simp
  have l0: "0 \<le> ?fill div ?w * fst (nhd ca) + ?fill mod ?w div 2 + ?fill mod ?w mod 2"
    using reps shape(1) eb el by simp
  have r0: "0 \<le> ?fill div ?w * snd (nhd ca) + ?fill mod ?w div 2"
    using reps shape(2) eb by simp
  have "(?fill div ?w * fst (nhd ca) + ?fill mod ?w div 2 + ?fill mod ?w mod 2)
        + (?fill div ?w * snd (nhd ca) + ?fill mod ?w div 2)
        = ?fill div ?w * ?w + (2 * (?fill mod ?w div 2) + ?fill mod ?w mod 2)"
    by (simp add: shape(3) algebra_simps)
  also have "\<dots> = ?fill div ?w * ?w + ?fill mod ?w" by simp
  also have "\<dots> = ?fill" by (rule div_mult_mod_eq)
  finally have tot: "(?fill div ?w * fst (nhd ca) + ?fill mod ?w div 2 + ?fill mod ?w mod 2)
        + (?fill div ?w * snd (nhd ca) + ?fill mod ?w div 2) = ?fill" .
  have "int (length (padded_row ca M s))
       = (?fill div ?w * fst (nhd ca) + ?fill mod ?w div 2 + ?fill mod ?w mod 2)
         + int (length s) + (?fill div ?w * snd (nhd ca) + ?fill mod ?w div 2)"
    using True l0 r0 by (simp add: padded_row_eq zeros_def)
  with tot show ?thesis by linarith
qed

text \<open>
  Claim C3. For an automaton with \<open>window_size > 1\<close> and a non-empty history of valid
  state sequences with maximal length \<open>max_len\<close> and minimal length \<open>min_len\<close>:
  \<open>_pad_output\<close> returns the history unchanged when \<open>max_len = min_len\<close>; in every
  case it returns a history with the same number of rows, each of length exactly
  \<open>max_len\<close>, where a row that already has length \<open>max_len\<close> is kept, and a row with
  \<open>fill = max_len - len > 0\<close> gets \<open>reps * left + extra_both + extra_left\<close> zeros in front
  and \<open>reps * right + extra_both\<close> zeros behind, for
  \<open>(reps, extra) = divmod(fill, window_size - 1)\<close> and
  \<open>(extra_both, extra_left) = divmod(extra, 2)\<close>; the odd remainder \<open>extra_left\<close>, 0 or 1,
  goes to the left side only. (A history has the input sequence as its first row; on an
  empty list of sequences \<open>max\<close> raises.)
\<close>

theorem uniform_padding:
  assumes "new_CA depth rl (l, r) n = Inr ca"
    and "1 < l + r + 1"
    and "seqs \<noteq> []"
    and "\<forall>s \<in> set seqs. \<forall>x \<in> set s. 0 \<le> x \<and> x < n"
    and "max_len = Max (set (map (\<lambda>s. int (length s)) seqs))"
    and "min_len = Min (set (map (\<lambda>s. int (length s)) seqs))"
  shows "(max_len = min_len \<longrightarrow> pad_output ca seqs = Inr seqs)
       \<and> (\<exists>out. pad_output ca seqs = Inr out \<and> length out = length seqs
            \<and> (\<forall>ix < length seqs. int (length (out ! ix)) = max_len)
            \<and> (\<forall>ix < length seqs. int (length (seqs ! ix)) = max_len \<longrightarrow> out ! ix = seqs ! ix)
            \<and> (\<forall>ix < length seqs. \<forall>fill reps extra extra_both extra_left.
                  fill = max_len - int (length (seqs ! ix)) \<and> 0 < fill
                  \<and> reps = fill div (l + r + 1 - 1) \<and> extra = fill mod (l + r + 1 - 1)
                  \<and> extra_both = extra div 2 \<and> extra_left = extra mod 2
                  \<longrightarrow> 0 \<le> reps * l + extra_both + extra_left \<and> 0 \<le> reps * r + extra_both
                    \<and> (extra_left = 0 \<or> extra_left = 1)
                    \<and> out ! ix = replicate (nat (reps * l + extra_both + extra_left)) 0
                                 @ seqs ! ix
                                 @ replicate (nat (reps * r + extra_both)) 0))"
proof -
  note s = new_CA_success[OF assms(1)]
  have wf: "wf_CA ca" using assms(1) by (rule new_CA_wf)
  have fields: "n_states ca = n" "in_size ca = l + r + 1" "fst (nhd ca) = l" "snd (nhd ca) = r"
    using s by simp_all
  have shape: "0 \<le> l" "0 \<le> r" using s by simp_all
  have w1: "1 < in_size ca" using assms(2) fields by simp
  have vs: "\<forall>s \<in> set seqs. valid_states ca s"
    using assms(4) by (simp add: valid_states_iff fields)
  let ?lens = "map (\<lambda>s. int (length s)) seqs"
  have fin: "finite (set ?lens)" "set ?lens \<noteq> {}" using assms(3) by simp_all
  have le_max: "int (length (seqs ! ix)) \<le> max_len" if "ix < length seqs" for ix
    unfolding assms(5) using that by (intro Max_ge) auto
  have ge_min: "min_len \<le> int (length (seqs ! ix))" if "ix < length seqs" for ix
    unfolding assms(6) using that by (intro Min_le) auto
  have min_max: "min_len \<le> max_len"
    using le_max[of 0] ge_min[of 0] assms(3) by simp
  note po = pad_output_valid[OF vs w1 assms(3), folded assms(5) assms(6)]
  show ?thesis
  proof (cases "min_len < max_len")
    case False
    with min_max have eq: "max_len = min_len" by simp
    have out: "pad_output ca seqs = Inr seqs" using po False by simp
    have all: "int (length (seqs ! ix)) = max_len" if "ix < length seqs" for ix
      using le_max[OF that] ge_min[OF that] eq by simp
    have "\<exists>out. pad_output ca seqs = Inr out \<and> length out = length seqs
            \<and> (\<forall>ix < length seqs. int (length (out ! ix)) = max_len)
            \<and> (\<forall>ix < length seqs. int (length (seqs ! ix)) = max_len \<longrightarrow> out ! ix = seqs ! ix)
            \<and> (\<forall>ix < length seqs. \<forall>fill reps extra extra_both extra_left.
                  fill = max_len - int (length (seqs ! ix)) \<and> 0 < fill
                  \<and> reps = fill div (l + r + 1 - 1) \<and> extra = fill mod (l + r + 1 - 1)
                  \<and> extra_both = extra div 2 \<and> extra_left = extra mod 2
                  \<longrightarrow> 0 \<le> reps * l + extra_both + extra_left \<and> 0 \<le> reps * r + extra_both
                    \<and> (extra_left = 0 \<or> extra_left = 1)
                    \<and> out ! ix = replicate (nat (reps * l + extra_both + extra_left)) 0
                                 @ seqs ! ix
                                 @ replicate (nat (reps * r + extra_both)) 0)"
      using out all by (intro exI[of _ seqs]) simp
    with out show ?thesis by simp
  next
    case True
    let ?out = "map (padded_row ca max_len) seqs"
    have out: "pad_output ca seqs = Inr ?out" using po True by simp
    have len: "int (length (?out ! ix)) = max_len" if "ix < length seqs" for ix
      using padded_row_length[OF wf w1 le_max[OF that]] that by simp
    have same: "?out ! ix = seqs ! ix"
      if "ix < length seqs" "int (length (seqs ! ix)) = max_len" for ix
      using that by (simp add: padded_row_eq)
    have pad: "0 \<le> reps * l + extra_both + extra_left \<and> 0 \<le> reps * r + extra_both
                \<and> (extra_left = 0 \<or> extra_left = 1)
                \<and> ?out ! ix = replicate (nat (reps * l + extra_both + extra_left)) 0
                                 @ seqs ! ix
                                 @ replicate (nat (reps * r + extra_both)) 0"
      if "ix < length seqs" "fill = max_len - int (length (seqs ! ix))" "0 < fill"
        "reps = fill div (l + r + 1 - 1)" "extra = fill mod (l + r + 1 - 1)"
        "extra_both = extra div 2" "extra_left = extra mod 2"
      for ix fill reps extra extra_both extra_left
    proof -
      have wpos: "0 < l + r + 1 - 1" using assms(2) by simp
      have reps: "0 \<le> reps" unfolding that(4) using that(3) wpos
        by (simp add: pos_imp_zdiv_nonneg_iff)
      have extra: "0 \<le> extra" unfolding that(5) using wpos by simp
      have eb: "0 \<le> extra_both" unfolding that(6) using extra by simp
      have el: "0 \<le> extra_left" "extra_left = 0 \<or> extra_left = 1"
        unfolding that(7) by auto
      have "?out ! ix = padded_row ca max_len (seqs ! ix)" using that(1) by simp
      also have "\<dots> = zeros (reps * l + extra_both + extra_left) @ seqs ! ix
                        @ zeros (reps * r + extra_both)"
        using that(3) unfolding padded_row_eq fields that(2,4,5,6,7) by simp
      finally have "?out ! ix = replicate (nat (reps * l + extra_both + extra_left)) 0
                                 @ seqs ! ix @ replicate (nat (reps * r + extra_both)) 0"
        by (simp add: zeros_def)
      then show ?thesis using reps eb el shape by simp
    qed
    have "\<exists>out. pad_output ca seqs = Inr out \<and> length out = length seqs
            \<and> (\<forall>ix < length seqs. int (length (out ! ix)) = max_len)
            \<and> (\<forall>ix < length seqs. int (length (seqs ! ix)) = max_len \<longrightarrow> out ! ix = seqs ! ix)
            \<and> (\<forall>ix < length seqs. \<forall>fill reps extra extra_both extra_left.
                  fill = max_len - int (length (seqs ! ix)) \<and> 0 < fill
                  \<and> reps = fill div (l + r + 1 - 1) \<and> extra = fill mod (l + r + 1 - 1)
                  \<and> extra_both = extra div 2 \<and> extra_left = extra mod 2
                  \<longrightarrow> 0 \<le> reps * l + extra_both + extra_left \<and> 0 \<le> reps * r + extra_both
                    \<and> (extra_left = 0 \<or> extra_left = 1)
                    \<and> out ! ix = replicate (nat (reps * l + extra_both + extra_left)) 0
                                 @ seqs ! ix
                                 @ replicate (nat (reps * r + extra_both)) 0)"
    proof (intro exI[of _ ?out] conjI allI impI)
      show "pad_output ca seqs = Inr ?out" by (rule out)
      show "length ?out = length seqs" by simp
    next
      fix ix assume "ix < length seqs"
      then show "int (length (?out ! ix)) = max_len" by (rule len)
    next
      fix ix assume "ix < length seqs" "int (length (seqs ! ix)) = max_len"
      then show "?out ! ix = seqs ! ix" by (rule same)
    next
      fix ix fill reps extra extra_both extra_left
      assume a: "ix < length seqs"
        "fill = max_len - int (length (seqs ! ix)) \<and> 0 < fill
         \<and> reps = fill div (l + r + 1 - 1) \<and> extra = fill mod (l + r + 1 - 1)
         \<and> extra_both = extra div 2 \<and> extra_left = extra mod 2"
      from pad[of ix fill reps extra extra_both extra_left] a
      have p: "0 \<le> reps * l + extra_both + extra_left \<and> 0 \<le> reps * r + extra_both
                \<and> (extra_left = 0 \<or> extra_left = 1)
                \<and> ?out ! ix = replicate (nat (reps * l + extra_both + extra_left)) 0
                                 @ seqs ! ix
                                 @ replicate (nat (reps * r + extra_both)) 0"
        by blast
      from p show "0 \<le> reps * l + extra_both + extra_left" by blast
      from p show "0 \<le> reps * r + extra_both" by blast
      from p show "extra_left = 0 \<or> extra_left = 1" by blast
      from p show "?out ! ix = replicate (nat (reps * l + extra_both + extra_left)) 0
                                 @ seqs ! ix
                                 @ replicate (nat (reps * r + extra_both)) 0" by blast
    qed
    moreover have "max_len \<noteq> min_len" using True by simp
    ultimately show ?thesis by simp
  qed
qed

theorem uniform_padding_witness:
  "new_CA 1000 (RuleNumber 90) (1, 1) 2 =
     Inr \<lparr>nhd = (1, 1), n_states = 2, in_size = 3,
                rule = [0, 1, 0, 1, 1, 0, 1, 0], max_rule_ix = 8\<rparr>
   \<and> (1::int) < 1 + 1 + 1
   \<and> list_all (list_all (\<lambda>x. 0 \<le> x \<and> x < 2)) [[0, 1, 0, 0, 0], [0, 1, 0], [0 :: int]]
   \<and> Max (set (map (\<lambda>s. int (length s)) [[0, 1, 0, 0, 0], [0, 1, 0], [0 :: int]])) = 5
   \<and> (\<exists>out. pad_output \<lparr>nhd = (1, 1), n_states = 2, in_size = 3,
                           rule = [0, 1, 0, 1, 1, 0, 1, 0], max_rule_ix = 8\<rparr>
                 [[0, 1, 0, 0, 0], [0, 1, 0], [0]] = Inr out
            \<and> length out = 3 \<and> out ! 1 = [0, 0, 1, 0, 0] \<and> out ! 2 = [0, 0, 0, 0, 0])"
proof -
  let ?ca = "\<lparr>nhd = (1, 1), n_states = 2, in_size = 3,
              rule = [0, 1, 0, 1, 1, 0, 1, 0], max_rule_ix = 8\<rparr>"
  let ?seqs = "[[0, 1, 0, 0, 0], [0, 1, 0], [0 :: int]]"
  have mx: "Max (set (map (\<lambda>s. int (length s)) ?seqs)) = 5" by simp
  have mn: "Min (set (map (\<lambda>s. int (length s)) ?seqs)) = 1" by simp
  have h2: "(1::int) < 1 + 1 + 1" by simp
  have h3: "?seqs \<noteq> []" by simp
  have h4: "\<forall>s \<in> set ?seqs. \<forall>x \<in> set s. 0 \<le> x \<and> x < (2::int)" by simp
  from uniform_padding[OF rule90_by_number h2 h3 h4 mx[symmetric] mn[symmetric]]
  obtain out where out: "pad_output ?ca ?seqs = Inr out" "length out = length ?seqs"
    and pad: "\<forall>ix < length ?seqs. \<forall>fill reps extra extra_both extra_left.
                  fill = 5 - int (length (?seqs ! ix)) \<and> 0 < fill
                  \<and> reps = fill div (1 + 1 + 1 - 1) \<and> extra = fill mod (1 + 1 + 1 - 1)
                  \<and> extra_both = extra div 2 \<and> extra_left = extra mod 2
                  \<longrightarrow> 0 \<le> reps * 1 + extra_both + extra_left \<and> 0 \<le> reps * 1 + extra_both
                    \<and> (extra_left = 0 \<or> extra_left = 1)
                    \<and> out ! ix = replicate (nat (reps * 1 + extra_both + extra_left)) 0
                                 @ ?seqs ! ix
                                 @ replicate (nat (reps * 1 + extra_both)) 0"
    by blast
  from pad[rule_format, of 1 2 1 0 0 0] have r1: "out ! 1 = [0, 0, 1, 0, 0]" by simp
  from pad[rule_format, of 2 4 2 0 0 0] have r2: "out ! 2 = [0, 0, 0, 0, 0]"
    by (simp add: numeral_2_eq_2)
  show ?thesis using rule90_by_number h2 mx out r1 r2 by simp
qed

subsection \<open>The evolution loop\<close>

lemma apply_windows_length:
  "apply_windows ca s starts out = Inr res \<Longrightarrow> length res = length out + length starts"
proof (induction starts arbitrary: out)
  case Nil
  then show ?case by simp
next
  case (Cons i starts)
  from Cons.prems obtain e where
    "apply_windows ca s starts (out @ [e]) = Inr res"
    by (auto simp: Let_def split: sum.splits)
  from Cons.IH[OF this] show ?case by simp
qed

lemma apply_rule_unpadded_length:
  assumes "apply_rule ca sq False = Inr nxt"
  shows "in_size ca \<le> int (length sq)"
    and "int (length nxt) = int (length sq) - in_size ca + 1"
    and "nxt \<noteq> []"
proof -
  show fit: "in_size ca \<le> int (length sq)"
    using assms by (auto simp: apply_rule_def split: if_splits)
  have "apply_windows ca sq [0 ..< nat (int (length sq) - in_size ca + 1)] [] = Inr nxt"
    using assms by (auto simp: apply_rule_def split: if_splits)
  from apply_windows_length[OF this]
  have "length nxt = nat (int (length sq) - in_size ca + 1)" by simp
  with fit show "int (length nxt) = int (length sq) - in_size ca + 1" by simp
  with fit show "nxt \<noteq> []" by auto
qed

lemma apply_rule_padded_length:
  assumes "wf_CA ca" "apply_rule ca sq True = Inr nxt"
  shows "length nxt = length sq"
proof -
  have "valid_states ca sq"
    using assms(2) by (auto simp: apply_rule_def valid_states_def split: if_splits)
  with assms show ?thesis by (auto simp: apply_rule_padded)
qed

lemma evolve_loop_shape:
  assumes "evolve_loop ca p m out = Inr h" "out \<noteq> []"
  shows "take (length out) h = out \<and> length out \<le> length h \<and> length h \<le> length out + m
       \<and> (\<forall>i. length out \<le> Suc i \<and> Suc i < length h \<longrightarrow>
              apply_rule ca (h ! i) p = Inr (h ! Suc i))"
  using assms
proof (induction m arbitrary: out)
  case 0
  then show ?case by auto
next
  case (Suc m)
  from Suc.prems(1) obtain nxt where nxt: "apply_rule ca (last out) p = Inr nxt"
    by (auto split: sum.splits)
  show ?case
  proof (cases "length nxt > 0")
    case False
    with Suc.prems(1) nxt have "h = out" by simp
    then show ?thesis by auto
  next
    case True
    with Suc.prems(1) nxt have run: "evolve_loop ca p m (out @ [nxt]) = Inr h" by simp
    from Suc.IH[OF run] have
      tk: "take (Suc (length out)) h = out @ [nxt]"
      and ln: "Suc (length out) \<le> length h" "length h \<le> Suc (length out) + m"
      and ch: "\<forall>i. Suc (length out) \<le> Suc i \<and> Suc i < length h \<longrightarrow>
                 apply_rule ca (h ! i) p = Inr (h ! Suc i)"
      by simp_all
    have pre: "take (length out) h = out"
    proof -
      have "take (length out) h = take (length out) (take (Suc (length out)) h)" by simp
      then show ?thesis by (simp only: tk) simp
    qed
    have at: "h ! i = (out @ [nxt]) ! i" if "i < Suc (length out)" for i
    proof -
      have "h ! i = take (Suc (length out)) h ! i" using that by simp
      then show ?thesis by (simp only: tk)
    qed
    have hl: "h ! (length out - 1) = last out"
      using at[of "length out - 1"] Suc.prems(2) by (simp add: nth_append last_conv_nth)
    have hn: "h ! length out = nxt" using at[of "length out"] by simp
    have first: "apply_rule ca (h ! i) p = Inr (h ! Suc i)" if "Suc i = length out" for i
    proof -
      from that have "i = length out - 1" by simp
      with hl have "h ! i = last out" by simp
      moreover from that hn have "h ! Suc i = nxt" by simp
      ultimately show ?thesis using nxt by simp
    qed
    have "apply_rule ca (h ! i) p = Inr (h ! Suc i)"
      if "length out \<le> Suc i" "Suc i < length h" for i
    proof (cases "Suc i = length out")
      case True
      then show ?thesis by (rule first)
    next
      case False
      with that have "Suc (length out) \<le> Suc i \<and> Suc i < length h" by simp
      with ch show ?thesis by blast
    qed
    with pre ln show ?thesis by simp
  qed
qed

lemma evolve_loop_full:
  assumes "\<And>s nxt. P s \<Longrightarrow> apply_rule ca s p = Inr nxt \<Longrightarrow> nxt \<noteq> [] \<and> P nxt"
    and "P (last out)" "evolve_loop ca p m out = Inr h"
  shows "length h = length out + m"
  using assms(2,3)
proof (induction m arbitrary: out)
  case 0
  then show ?case by simp
next
  case (Suc m)
  from Suc.prems(2) obtain nxt where nxt: "apply_rule ca (last out) p = Inr nxt"
    by (auto split: sum.splits)
  from assms(1)[OF Suc.prems(1) nxt] have ne: "nxt \<noteq> []" and P: "P nxt" by simp_all
  from Suc.prems(2) nxt ne have "evolve_loop ca p m (out @ [nxt]) = Inr h" by simp
  from Suc.IH[OF _ this] P show ?case by simp
qed

lemma evolve_loop_unpadded_full:
  "evolve_loop ca False m out = Inr h \<Longrightarrow> length h = length out + m"
  by (rule evolve_loop_full[where P = "\<lambda>_. True"]) (simp_all add: apply_rule_unpadded_length)

lemma evolve_loop_padded_full:
  assumes "wf_CA ca" "last out \<noteq> []" "evolve_loop ca True m out = Inr h"
  shows "length h = length out + m"
proof (rule evolve_loop_full[where P = "\<lambda>s. s \<noteq> []"])
  fix s nxt :: "int list"
  assume "s \<noteq> []" "apply_rule ca s True = Inr nxt"
  with apply_rule_padded_length[OF assms(1)] show "nxt \<noteq> [] \<and> nxt \<noteq> []" by fastforce
qed (use assms in simp_all)

lemma evolve_loop_padded_empty:
  assumes "wf_CA ca" "last out = []" "evolve_loop ca True m out = Inr h"
  shows "h = out"
proof (cases m)
  case 0
  with assms(3) show ?thesis by simp
next
  case (Suc k)
  with assms(3) obtain nxt where nxt: "apply_rule ca (last out) True = Inr nxt"
    by (auto split: sum.splits)
  with apply_rule_padded_length[OF assms(1) nxt] assms(2) have "nxt = []" by simp
  with assms(3) Suc nxt show ?thesis by simp
qed

lemma evolve_loop_padded_lengths:
  assumes "wf_CA ca" "evolve_loop ca True m out = Inr h" "\<forall>row \<in> set out. length row = L"
    "out \<noteq> []"
  shows "\<forall>row \<in> set h. length row = L"
  using assms(2,3,4)
proof (induction m arbitrary: out)
  case 0
  then show ?case by simp
next
  case (Suc m)
  from Suc.prems(1) obtain nxt where nxt: "apply_rule ca (last out) True = Inr nxt"
    by (auto split: sum.splits)
  have "length nxt = L"
    using apply_rule_padded_length[OF assms(1) nxt] Suc.prems(2,3) by simp
  show ?case
  proof (cases "length nxt > 0")
    case False
    with Suc.prems nxt show ?thesis by simp
  next
    case True
    with Suc.prems(1) nxt have "evolve_loop ca True m (out @ [nxt]) = Inr h" by simp
    from Suc.IH[OF this] Suc.prems(2) \<open>length nxt = L\<close> show ?thesis by simp
  qed
qed

lemma evolve_loop_too_short:
  assumes "j < m" "repeat_step ca False j (last out) = Inr cur" "int (length cur) < in_size ca"
  shows "evolve_loop ca False m out = Inl SequenceTooShort"
  using assms(1,2)
proof (induction j arbitrary: m out)
  case 0
  then obtain k where m: "m = Suc k" by (cases m) auto
  from 0 have "cur = last out" by simp
  with assms(3) have "apply_rule ca (last out) False = Inl SequenceTooShort"
    by (simp add: apply_rule_def)
  then show ?case by (simp add: m)
next
  case (Suc j)
  then obtain k where m: "m = Suc k" and jk: "j < k" by (cases m) auto
  from Suc.prems(2) obtain nxt where nxt: "apply_rule ca (last out) False = Inr nxt"
    and rest: "repeat_step ca False j nxt = Inr cur"
    by (auto split: sum.splits)
  have ne: "nxt \<noteq> []" using nxt by (rule apply_rule_unpadded_length)
  have "evolve_loop ca False k (out @ [nxt]) = Inl SequenceTooShort"
    using jk rest by (intro Suc.IH) simp_all
  with nxt ne show ?case by (simp add: m)
qed

lemma pad_output_length:
  assumes "pad_output ca seqs = Inr out"
  shows "length out = length seqs"
proof -
  have "fold (\<lambda>p acc. pad_at ca M acc p) (enumerate 0 (map (\<lambda>s. int (length s)) seqs)) seqs
          = map (padded_row ca M) seqs" for M
    using fold_pad_at[of ca M "[]" seqs] by simp
  with assms show ?thesis
    by (auto simp: pad_output_def Let_def split: sum.splits if_splits)
qed

lemma pad_output_equal_lengths:
  assumes "pad_output ca seqs = Inr out" "\<forall>row \<in> set seqs. length row = L"
  shows "out = seqs"
proof (cases "seqs = []")
  case True
  with assms(1) show ?thesis
    by (auto simp: pad_output_def Let_def split: sum.splits if_splits)
next
  case False
  let ?lens = "map (\<lambda>s. int (length s)) seqs"
  have ne: "?lens \<noteq> []" using False by simp
  have "set ?lens = {int L}" using assms(2) False by (cases seqs) auto
  then have "Max (set ?lens) = int L" "Min (set ?lens) = int L" by simp_all
  then have "fold max (tl ?lens) (hd ?lens) = fold min (tl ?lens) (hd ?lens)"
    by (simp only: fold_max_Max[OF ne] fold_min_Min[OF ne])
  with assms(1) show ?thesis
    by (auto simp: pad_output_def Let_def split: sum.splits if_splits)
qed

subsection \<open>Evolution\<close>

text \<open>
  Claim C4. An evolution without input padding and with \<open>steps \<ge> 1\<close>: if after \<open>j\<close>
  successful steps, for some \<open>j\<close> below \<open>steps\<close>, the current sequence is shorter than the
  window, the call fails with \<open>SequenceTooShort\<close>. It never stops early: whenever such a
  call returns a history, the history has all \<open>steps + 1\<close> rows.
\<close>

theorem hard_failure_termination:
  "(1 \<le> steps \<and> j < nat steps \<and> repeat_step ca False j sq = Inr cur
      \<and> int (length cur) < in_size ca
      \<longrightarrow> call ca sq steps False post_pad = Inl SequenceTooShort)
   \<and> (call ca sq steps False post_pad = Inr h \<longrightarrow> length h = nat steps + 1)"
proof (intro conjI impI)
  assume a: "1 \<le> steps \<and> j < nat steps \<and> repeat_step ca False j sq = Inr cur
      \<and> int (length cur) < in_size ca"
  then have "evolve_loop ca False (nat steps) [sq] = Inl SequenceTooShort"
    by (intro evolve_loop_too_short[of j _ _ _ cur]) simp_all
  with a show "call ca sq steps False post_pad = Inl SequenceTooShort"
    by (simp add: call_def)
next
  assume ok: "call ca sq steps False post_pad = Inr h"
  then obtain raw where raw: "evolve_loop ca False (nat steps) [sq] = Inr raw"
    and h: "h = raw \<or> pad_output ca raw = Inr h"
    by (auto simp: call_def split: if_splits sum.splits)
  from evolve_loop_unpadded_full[OF raw] have "length raw = nat steps + 1" by simp
  with h pad_output_length show "length h = nat steps + 1" by auto
qed

text \<open>
  Claim C5. For an automaton returned by the constructor and a sequence of valid states:
  a step with input padding returns a sequence of the same length; a step without input
  padding on a sequence at least as long as the window returns a sequence of length
  \<open>len(seq) - window_size + 1\<close>, strictly shorter when \<open>window_size > 1\<close>; and every row
  of a history returned by an evolution with input padding has the length of the input.
\<close>

theorem step_output_length:
  assumes "new_CA depth rl (l, r) n = Inr ca" and "\<forall>x \<in> set sq. 0 \<le> x \<and> x < n"
  shows "(\<exists>out. apply_rule ca sq True = Inr out \<and> length out = length sq)
       \<and> (l + r + 1 \<le> int (length sq) \<longrightarrow>
            (\<exists>out. apply_rule ca sq False = Inr out
                  \<and> int (length out) = int (length sq) - (l + r + 1) + 1
                  \<and> (1 < l + r + 1 \<longrightarrow> length out < length sq)))
       \<and> (\<forall>steps post_pad h. call ca sq steps True post_pad = Inr h \<longrightarrow>
            (\<forall>row \<in> set h. length row = length sq))"
proof -
  note s = new_CA_success[OF assms(1)]
  have wf: "wf_CA ca" using assms(1) by (rule new_CA_wf)
  have fields: "n_states ca = n" "in_size ca = l + r + 1" using s by simp_all
  have vs: "valid_states ca sq" using assms(2) by (simp add: valid_states_iff fields)
  have padded: "\<exists>out. apply_rule ca sq True = Inr out \<and> length out = length sq"
    using apply_rule_padded[OF wf vs] by simp
  have unpadded: "\<exists>out. apply_rule ca sq False = Inr out
                  \<and> int (length out) = int (length sq) - (l + r + 1) + 1
                  \<and> (1 < l + r + 1 \<longrightarrow> length out < length sq)"
    if fit: "l + r + 1 \<le> int (length sq)"
  proof -
    from fit have "in_size ca \<le> int (length sq)" by (simp add: fields)
    from apply_rule_unpadded[OF wf vs this] obtain out where
      out: "apply_rule ca sq False = Inr out" by simp
    from apply_rule_unpadded_length(2)[OF out]
    have "int (length out) = int (length sq) - (l + r + 1) + 1" by (simp add: fields)
    with out show ?thesis by auto
  qed
  have hist: "\<forall>row \<in> set h. length row = length sq"
    if ok: "call ca sq steps True post_pad = Inr h" for steps post_pad h
  proof -
    from ok obtain raw where raw: "evolve_loop ca True (nat steps) [sq] = Inr raw"
      and h: "h = raw \<or> pad_output ca raw = Inr h"
      by (auto simp: call_def split: if_splits sum.splits)
    have rows: "\<forall>row \<in> set raw. length row = length sq"
      using evolve_loop_padded_lengths[OF wf raw, of "length sq"] by simp
    from h show ?thesis
    proof
      assume "h = raw"
      with rows show ?thesis by simp
    next
      assume "pad_output ca raw = Inr h"
      from pad_output_equal_lengths[OF this rows] rows show ?thesis by simp
    qed
  qed
  show ?thesis using padded unpadded hist by blast
qed

text \<open>
  Claim C6, as amended. For an automaton returned by the constructor, every evolution
  call that succeeds has \<open>steps \<ge> 1\<close> and is built from a history \<open>raw\<close> whose first row
  is the input sequence and in which every later row is the result of one rule
  application to the row before it. \<open>raw\<close> has \<open>steps + 1\<close> rows when the input is not
  empty and is the single empty row when the input is empty. The returned history is
  \<open>raw\<close> itself without output padding and the uniform padding of \<open>raw\<close> with it, with
  the same number of rows; so its length is between 1 and \<open>steps + 1\<close>, and at least 2 for
  a non-empty input.
\<close>

theorem history_shape:
  assumes "new_CA depth rl (l, r) n = Inr ca"
    and "call ca sq steps pre_pad post_pad = Inr h"
  shows "1 \<le> steps
       \<and> (\<exists>raw. raw \<noteq> [] \<and> hd raw = sq
             \<and> (\<forall>i. Suc i < length raw \<longrightarrow>
                    apply_rule ca (raw ! i) pre_pad = Inr (raw ! Suc i))
             \<and> length raw = (if sq = [] then 1 else nat steps + 1)
             \<and> (if post_pad then pad_output ca raw = Inr h else h = raw)
             \<and> length h = length raw)
       \<and> 1 \<le> length h \<and> length h \<le> nat steps + 1
       \<and> (sq \<noteq> [] \<longrightarrow> 2 \<le> length h)"
proof -
  have wf: "wf_CA ca" using assms(1) by (rule new_CA_wf)
  have w1: "1 \<le> in_size ca" using wf by (simp add: wf_CA_def)
  from assms(2) have st: "1 \<le> steps" by (auto simp: call_def split: if_splits)
  from assms(2) obtain raw where raw: "evolve_loop ca pre_pad (nat steps) [sq] = Inr raw"
    and h: "if post_pad then pad_output ca raw = Inr h else h = raw"
    by (auto simp: call_def split: if_splits sum.splits)
  from evolve_loop_shape[OF raw] have
    tk: "take 1 raw = [sq]" and ln: "1 \<le> length raw" "length raw \<le> 1 + nat steps"
    and ch: "\<forall>i. Suc i < length raw \<longrightarrow> apply_rule ca (raw ! i) pre_pad = Inr (raw ! Suc i)"
    by simp_all
  from ln(1) have ne: "raw \<noteq> []" by auto
  from tk ne have hd: "hd raw = sq" by (cases raw) simp_all
  have len: "length raw = (if sq = [] then 1 else nat steps + 1)"
  proof (cases pre_pad)
    case False
    with raw have rawF: "evolve_loop ca False (nat steps) [sq] = Inr raw" by simp
    from evolve_loop_unpadded_full[OF rawF]
    have full: "length raw = nat steps + 1" by simp
    have "sq \<noteq> []"
    proof
      assume e: "sq = []"
      from st obtain k where k: "nat steps = Suc k" by (cases "nat steps") auto
      have "apply_rule ca [] False = Inl SequenceTooShort"
        using w1 by (simp add: apply_rule_def)
      with rawF e k show False by simp
    qed
    with full show ?thesis by simp
  next
    case True
    with raw have rawT: "evolve_loop ca True (nat steps) [sq] = Inr raw" by simp
    show ?thesis
    proof (cases "sq = []")
      case e: True
      from evolve_loop_padded_empty[OF wf _ rawT] e show ?thesis by simp
    next
      case False
      from evolve_loop_padded_full[OF wf _ rawT] False show ?thesis by simp
    qed
  qed
  have hl: "length h = length raw"
    using h pad_output_length by (auto split: if_splits)
  have "\<exists>raw. raw \<noteq> [] \<and> hd raw = sq
             \<and> (\<forall>i. Suc i < length raw \<longrightarrow>
                    apply_rule ca (raw ! i) pre_pad = Inr (raw ! Suc i))
             \<and> length raw = (if sq = [] then 1 else nat steps + 1)
             \<and> (if post_pad then pad_output ca raw = Inr h else h = raw)
             \<and> length h = length raw"
    using ne hd ch len h hl by blast
  moreover have "1 \<le> length h" "length h \<le> nat steps + 1" "sq \<noteq> [] \<longrightarrow> 2 \<le> length h"
    using hl len ln st by auto
  ultimately show ?thesis using st by blast
qed

lemma rule90_unpadded_steps:
  "repeat_step 
     \<lparr>nhd = (1, 1), n_states = 2, in_size = 3, rule = [0, 1, 0, 1, 1, 0, 1, 0], max_rule_ix = 8\<rparr> False 2 [0, 1, 0, 0, 0] = Inr [0]"
  by code_simp

theorem hard_failure_termination_witness:
  "(1::int) \<le> 3 \<and> (2::nat) < nat 3
   \<and> repeat_step 
     \<lparr>nhd = (1, 1), n_states = 2, in_size = 3, rule = [0, 1, 0, 1, 1, 0, 1, 0], max_rule_ix = 8\<rparr> False 2 [0, 1, 0, 0, 0] = Inr [0]
   \<and> int (length [0::int]) < in_size 
     \<lparr>nhd = (1, 1), n_states = 2, in_size = 3, rule = [0, 1, 0, 1, 1, 0, 1, 0], max_rule_ix = 8\<rparr>
   \<and> call 
     \<lparr>nhd = (1, 1), n_states = 2, in_size = 3, rule = [0, 1, 0, 1, 1, 0, 1, 0], max_rule_ix = 8\<rparr> [0, 1, 0, 0, 0] 3 False True = Inl SequenceTooShort"
  using hard_failure_termination[of 3 2 "
     \<lparr>nhd = (1, 1), n_states = 2, in_size = 3, rule = [0, 1, 0, 1, 1, 0, 1, 0], max_rule_ix = 8\<rparr>" "[0, 1, 0, 0, 0]" "[0]" True "[]"]
    rule90_unpadded_steps
  by simp

theorem step_output_length_witness:
  "new_CA 1000 (RuleNumber 90) (1, 1) 2 = Inr \<lparr>nhd = (1, 1), n_states = 2, in_size = 3, rule = [0, 1, 0, 1, 1, 0, 1, 0], max_rule_ix = 8\<rparr>
   \<and> list_all (\<lambda>x. 0 \<le> x \<and> x < 2) [0, 1, 0, 0, 0 :: int]
   \<and> (\<exists>out. apply_rule 
     \<lparr>nhd = (1, 1), n_states = 2, in_size = 3, rule = [0, 1, 0, 1, 1, 0, 1, 0], max_rule_ix = 8\<rparr> [0, 1, 0, 0, 0] True = Inr out \<and> length out = length [0, 1, 0, 0, 0 :: int])
   \<and> (\<exists>out. apply_rule 
     \<lparr>nhd = (1, 1), n_states = 2, in_size = 3, rule = [0, 1, 0, 1, 1, 0, 1, 0], max_rule_ix = 8\<rparr> [0, 1, 0, 0, 0] False = Inr out \<and> int (length out) = 3
           \<and> length out < length [0, 1, 0, 0, 0 :: int])"
  using step_output_length[OF rule90_by_number, of "[0, 1, 0, 0, 0]"] rule90_by_number
  by simp

lemma rule90_unpadded_call:
  "call 
     \<lparr>nhd = (1, 1), n_states = 2, in_size = 3, rule = [0, 1, 0, 1, 1, 0, 1, 0], max_rule_ix = 8\<rparr> [0, 1, 0, 0, 0] 2 False True = Inr [[0, 1, 0, 0, 0], [0, 0, 1, 0, 0], [0, 0, 0, 0, 0]]"
  by code_simp

theorem history_shape_witness:
  "new_CA 1000 (RuleNumber 90) (1, 1) 2 = Inr \<lparr>nhd = (1, 1), n_states = 2, in_size = 3, rule = [0, 1, 0, 1, 1, 0, 1, 0], max_rule_ix = 8\<rparr>
   \<and> call 
     \<lparr>nhd = (1, 1), n_states = 2, in_size = 3, rule = [0, 1, 0, 1, 1, 0, 1, 0], max_rule_ix = 8\<rparr> [0, 1, 0, 0, 0] 2 False True
       = Inr [[0, 1, 0, 0, 0], [0, 0, 1, 0, 0], [0, 0, 0, 0, 0]]
   \<and> (\<exists>raw. raw \<noteq> [] \<and> hd raw = [0, 1, 0, 0, 0] \<and> length raw = 3
          \<and> pad_output 
     \<lparr>nhd = (1, 1), n_states = 2, in_size = 3, rule = [0, 1, 0, 1, 1, 0, 1, 0], max_rule_ix = 8\<rparr> raw = Inr [[0, 1, 0, 0, 0], [0, 0, 1, 0, 0], [0, 0, 0, 0, 0]])"
  using history_shape[OF rule90_by_number rule90_unpadded_call] rule90_by_number
    rule90_unpadded_call
  by auto

text \<open>
  Claim C6 as stated fails on rule 90. With the empty input and input padding the first
  step yields the empty sequence, the loop stops, and the history has one row, not two.
  With output padding and no input padding the second row of the returned history is the
  zero-padded step result, not the step result.
\<close>

theorem history_shape_counterexample:
  "new_CA 1000 (RuleNumber 90) (1, 1) 2 = Inr \<lparr>nhd = (1, 1), n_states = 2, in_size = 3, rule = [0, 1, 0, 1, 1, 0, 1, 0], max_rule_ix = 8\<rparr>
   \<and> call 
     \<lparr>nhd = (1, 1), n_states = 2, in_size = 3, rule = [0, 1, 0, 1, 1, 0, 1, 0], max_rule_ix = 8\<rparr> [] 1 True True = Inr [[]]
   \<and> length [[] :: int list] < 2
   \<and> call 
     \<lparr>nhd = (1, 1), n_states = 2, in_size = 3, rule = [0, 1, 0, 1, 1, 0, 1, 0], max_rule_ix = 8\<rparr> [0, 1, 0, 0, 0] 1 False True = Inr [[0, 1, 0, 0, 0], [0, 0, 1, 0, 0]]
   \<and> apply_rule 
     \<lparr>nhd = (1, 1), n_states = 2, in_size = 3, rule = [0, 1, 0, 1, 1, 0, 1, 0], max_rule_ix = 8\<rparr> [0, 1, 0, 0, 0] False = Inr [0, 1, 0]
   \<and> [0, 0, 1, 0, 0] \<noteq> [0, 1, 0 :: int]"
proof -
  have "call 
     \<lparr>nhd = (1, 1), n_states = 2, in_size = 3, rule = [0, 1, 0, 1, 1, 0, 1, 0], max_rule_ix = 8\<rparr> [] 1 True True = Inr [[]]" by code_simp
  moreover have "call 
     \<lparr>nhd = (1, 1), n_states = 2, in_size = 3, rule = [0, 1, 0, 1, 1, 0, 1, 0], max_rule_ix = 8\<rparr> [0, 1, 0, 0, 0] 1 False True
                  = Inr [[0, 1, 0, 0, 0], [0, 0, 1, 0, 0]]" by code_simp
  moreover have "apply_rule 
     \<lparr>nhd = (1, 1), n_states = 2, in_size = 3, rule = [0, 1, 0, 1, 1, 0, 1, 0], max_rule_ix = 8\<rparr> [0, 1, 0, 0, 0] False = Inr [0, 1, 0]" by code_simp
  ultimately show ?thesis using rule90_by_number by simp
qed

subsection \<open>The store-level methods compute what the value-level methods compute\<close>

lemma on_success_simps [simp]:
  "on_success f (Inl e) = Inl e" "on_success f (Inr x) = Inr (f x)"
  by (simp_all add: on_success_def)

lemma apply_windows_h_sim:
  assumes "sa < length h" "oa < length h" "sa \<noteq> oa"
    and "apply_windows_h ca sa starts oa h = (res, h')"
  shows "length h' = length h \<and> (\<forall>b. b \<noteq> oa \<longrightarrow> h' ! b = h ! b)
       \<and> apply_windows ca (h ! sa) starts (h ! oa) = on_success (\<lambda>_. h' ! oa) res"
  using assms
proof (induction starts arbitrary: h)
  case Nil
  then show ?case by auto
next
  case (Cons i starts)
  let ?w = "slice (h ! sa) (int i) (int i + in_size ca)"
  show ?case
  proof (cases "neighborhood_to_index ca ?w")
    case (Inl e)
    with Cons.prems(4) show ?thesis by (auto simp: Let_def)
  next
    case (Inr wi)
    show ?thesis
    proof (cases "list_index (rule ca) wi")
      case (Inl e)
      with Inr Cons.prems(4) show ?thesis by (auto simp: Let_def)
    next
      case lk: (Inr s)
      let ?h1 = "h[oa := h ! oa @ [s]]"
      from Inr lk Cons.prems(4) have run: "apply_windows_h ca sa starts oa ?h1 = (res, h')"
        by (simp add: Let_def)
      have "sa < length ?h1" "oa < length ?h1" using Cons.prems(1,2) by simp_all
      from Cons.IH[OF this Cons.prems(3) run] have
        ih: "length h' = length ?h1" "\<forall>b. b \<noteq> oa \<longrightarrow> h' ! b = ?h1 ! b"
          "apply_windows ca (?h1 ! sa) starts (?h1 ! oa) = on_success (\<lambda>_. h' ! oa) res"
        by simp_all
      have sa: "?h1 ! sa = h ! sa" using Cons.prems(3) by simp
      have oa: "?h1 ! oa = h ! oa @ [s]" using Cons.prems(2) by simp
      have "apply_windows ca (h ! sa) (i # starts) (h ! oa)
              = apply_windows ca (h ! sa) starts (h ! oa @ [s])"
        using Inr lk by (simp add: Let_def)
      with ih show ?thesis by (simp add: sa oa)
    qed
  qed
qed

lemma apply_rule_h_sim:
  assumes "a < length h" "apply_rule_h ca a pre h = (res, h')"
  shows "length h \<le> length h' \<and> (\<forall>b < length h. h' ! b = h ! b)
       \<and> (\<forall>oa. res = Inr oa \<longrightarrow> length h \<le> oa \<and> oa < length h')
       \<and> apply_rule ca (h ! a) pre = on_success (\<lambda>oa. h' ! oa) res"
proof (cases "(\<not> pre \<and> int (length (h ! a)) < in_size ca)
              \<or> \<not> list_all (\<lambda>x. 0 \<le> x \<and> x < n_states ca) (h ! a)")
  case True
  with assms(2) show ?thesis
    by (auto simp: apply_rule_h_def apply_rule_def split: if_splits)
next
  case False
  let ?oa = "length h"
  let ?h1 = "h @ [[]]"
  let ?sq' = "if pre then zeros (fst (nhd ca)) @ h ! a @ zeros (snd (nhd ca)) else h ! a"
  let ?sa = "if pre then Suc (length h) else a"
  let ?h2 = "if pre then ?h1 @ [?sq'] else ?h1"
  have h1a: "?h1 ! a = h ! a" using assms(1) by (simp add: nth_append)
  obtain r3 h3 where w: "apply_windows_h ca ?sa
        [0 ..< nat (int (length (?h2 ! ?sa)) - in_size ca + 1)] ?oa ?h2 = (r3, h3)"
    by (cases "apply_windows_h ca ?sa
        [0 ..< nat (int (length (?h2 ! ?sa)) - in_size ca + 1)] ?oa ?h2") blast
  have res: "res = on_success (\<lambda>_. ?oa) r3" "h' = h3"
    using assms(2) False w h1a
    by (auto simp: apply_rule_h_def alloc_def Let_def split: if_splits sum.splits)
  have pre1: "?sa < length ?h2" "?oa < length ?h2" "?sa \<noteq> ?oa"
    using assms(1) by auto
  from apply_windows_h_sim[OF pre1 w] have
    sim: "length h3 = length ?h2" "\<forall>b. b \<noteq> ?oa \<longrightarrow> h3 ! b = ?h2 ! b"
      "apply_windows ca (?h2 ! ?sa) [0 ..< nat (int (length (?h2 ! ?sa)) - in_size ca + 1)]
         (?h2 ! ?oa) = on_success (\<lambda>_. h3 ! ?oa) r3"
    by blast+
  have sq: "?h2 ! ?sa = ?sq'" using assms(1) by (auto simp: nth_append)
  have o: "?h2 ! ?oa = []" by (auto simp: nth_append)
  have old: "h3 ! b = h ! b" if "b < length h" for b
  proof -
    from that have "h3 ! b = ?h2 ! b" using sim(2) by simp
    also have "\<dots> = h ! b" using that by (auto simp: nth_append)
    finally show ?thesis .
  qed
  have pure: "apply_rule ca (h ! a) pre
      = apply_windows ca ?sq' [0 ..< nat (int (length ?sq') - in_size ca + 1)] []"
    using False by (auto simp: apply_rule_def Let_def)
  have "apply_rule ca (h ! a) pre = on_success (\<lambda>oa. h' ! oa) res"
    using sim(3) unfolding sq o pure res by (cases r3) simp_all
  moreover have "length h \<le> length h'" using sim(1) res by (auto split: if_splits)
  moreover have "\<forall>oa. res = Inr oa \<longrightarrow> length h \<le> oa \<and> oa < length h'"
    using res sim(1) by (cases r3) (auto split: if_splits)
  ultimately show ?thesis using old res by simp
qed

lemma map_nth_agree:
  "\<forall>r \<in> set rows. r < length h \<Longrightarrow> \<forall>b < length h. h' ! b = h ! b
     \<Longrightarrow> map (\<lambda>r. h' ! r) rows = map (\<lambda>r. h ! r) rows"
  by simp

lemma evolve_loop_h_sim:
  assumes "out \<noteq> []" "\<forall>r \<in> set out. r < length h"
    and "evolve_loop_h ca pre m out h = (res, h')"
  shows "length h \<le> length h' \<and> (\<forall>b < length h. h' ! b = h ! b)
       \<and> (\<forall>rows. res = Inr rows \<longrightarrow>
             (\<exists>new. rows = out @ new \<and> distinct new
                   \<and> (\<forall>r \<in> set new. length h \<le> r \<and> r < length h')))
       \<and> evolve_loop ca pre m (map (\<lambda>r. h ! r) out) = on_success (map (\<lambda>r. h' ! r)) res"
  using assms
proof (induction m arbitrary: out h)
  case 0
  then show ?case by auto
next
  case (Suc m)
  obtain r1 h1 where step: "apply_rule_h ca (last out) pre h = (r1, h1)"
    by (cases "apply_rule_h ca (last out) pre h") blast
  have la: "last out < length h" using Suc.prems(1,2) by simp
  from apply_rule_h_sim[OF la step] have
    ext1: "length h \<le> length h1" "\<forall>b < length h. h1 ! b = h ! b"
    and fresh1: "\<forall>oa. r1 = Inr oa \<longrightarrow> length h \<le> oa \<and> oa < length h1"
    and sim1: "apply_rule ca (h ! last out) pre = on_success (\<lambda>oa. h1 ! oa) r1"
    by blast+
  have lastmap: "last (map (\<lambda>r. h ! r) out) = h ! last out"
    using Suc.prems(1) by (simp add: last_map)
  have same1: "map (\<lambda>r. h1 ! r) out = map (\<lambda>r. h ! r) out"
    using Suc.prems(2) ext1(2) by simp
  show ?case
  proof (cases r1)
    case (Inl e)
    with step Suc.prems(3) have "res = Inl e" "h' = h1" by simp_all
    with ext1 sim1 Inl lastmap show ?thesis by simp
  next
    case (Inr oa)
    with fresh1 have oa: "length h \<le> oa" "oa < length h1" by simp_all
    from sim1 Inr have pure1: "apply_rule ca (h ! last out) pre = Inr (h1 ! oa)" by simp
    show ?thesis
    proof (cases "length (h1 ! oa) > 0")
      case False
      with step Inr Suc.prems(3) have "res = Inr out" "h' = h1" by simp_all
      with ext1 pure1 False lastmap same1 show ?thesis by simp
    next
      case True
      with step Inr Suc.prems(3)
      have run: "evolve_loop_h ca pre m (out @ [oa]) h1 = (res, h')" by simp
      have "out @ [oa] \<noteq> []" "\<forall>r \<in> set (out @ [oa]). r < length h1"
        using Suc.prems(2) ext1(1) oa(2) by auto
      from Suc.IH[OF this run] have
        ext: "length h1 \<le> length h'" "\<forall>b < length h1. h' ! b = h1 ! b"
        and fresh: "\<forall>rows. res = Inr rows \<longrightarrow>
             (\<exists>new. rows = (out @ [oa]) @ new \<and> distinct new
                   \<and> (\<forall>r \<in> set new. length h1 \<le> r \<and> r < length h'))"
        and sim: "evolve_loop ca pre m (map (\<lambda>r. h1 ! r) (out @ [oa]))
                    = on_success (map (\<lambda>r. h' ! r)) res"
        by blast+
      have frame: "\<forall>b < length h. h' ! b = h ! b"
        using ext(2) ext1 by auto
      have new: "\<exists>new. rows = out @ new \<and> distinct new
                   \<and> (\<forall>r \<in> set new. length h \<le> r \<and> r < length h')"
        if "res = Inr rows" for rows
      proof -
        from fresh that obtain new where new: "rows = (out @ [oa]) @ new" "distinct new"
          "\<forall>r \<in> set new. length h1 \<le> r \<and> r < length h'" by blast
        have "rows = out @ (oa # new)" using new(1) by simp
        moreover have "distinct (oa # new)" using new(2,3) oa(2) by auto
        moreover have "\<forall>r \<in> set (oa # new). length h \<le> r \<and> r < length h'"
          using new(3) oa ext(1) ext1(1) by auto
        ultimately show ?thesis by blast
      qed
      have "evolve_loop ca pre (Suc m) (map (\<lambda>r. h ! r) out)
              = evolve_loop ca pre m (map (\<lambda>r. h ! r) out @ [h1 ! oa])"
        using pure1 True lastmap by simp
      also have "\<dots> = evolve_loop ca pre m (map (\<lambda>r. h1 ! r) (out @ [oa]))"
        unfolding map_append same1 by simp
      finally have "evolve_loop ca pre (Suc m) (map (\<lambda>r. h ! r) out)
              = on_success (map (\<lambda>r. h' ! r)) res"
        using sim by simp
      moreover have "length h \<le> length h'" using ext(1) ext1(1) by simp
      ultimately show ?thesis using frame new by blast
    qed
  qed
qed

lemma pad_at_h_append:
  "pad_at_h ca M (pre @ x # xs, h) (length pre, int (length (h ! x)))
     = (if M - int (length (h ! x)) > 0
        then (pre @ length h # xs, h @ [padded_row ca M (h ! x)])
        else (pre @ x # xs, h))"
  by (simp add: pad_at_h_def alloc_def padded_row_eq Let_def)

lemma fold_pad_at_h:
  assumes "\<forall>r \<in> set rest. r < length h" "distinct rest"
  shows "\<exists>rest' h'.
           fold (\<lambda>p st. pad_at_h ca M st p)
                (enumerate (length pre) (map (\<lambda>a. int (length (h ! a))) rest)) (pre @ rest, h)
             = (pre @ rest', h')
         \<and> length h \<le> length h' \<and> (\<forall>b < length h. h' ! b = h ! b)
         \<and> length rest' = length rest \<and> distinct rest'
         \<and> (\<forall>r \<in> set rest'. r < length h')
         \<and> (\<forall>r \<in> set rest'. r \<in> set rest \<or> length h \<le> r)
         \<and> map (\<lambda>r. h' ! r) rest' = map (padded_row ca M) (map (\<lambda>r. h ! r) rest)"
  using assms
proof (induction rest arbitrary: pre h)
  case Nil
  then show ?case by simp
next
  case (Cons x xs)
  let ?f = "\<lambda>p st. pad_at_h ca M st p"
  let ?fill = "M - int (length (h ! x))"
  let ?x' = "if ?fill > 0 then length h else x"
  let ?h1 = "if ?fill > 0 then h @ [padded_row ca M (h ! x)] else h"
  have x: "x < length h" "x \<notin> set xs" and xs: "\<forall>r \<in> set xs. r < length h" "distinct xs"
    using Cons.prems by simp_all
  have ext1: "length h \<le> length ?h1" "\<forall>b < length h. ?h1 ! b = h ! b"
    by (simp_all add: nth_append)
  have x': "?x' < length ?h1" "?h1 ! ?x' = padded_row ca M (h ! x)"
    using x(1) by (auto simp: padded_row_eq)
  have lens: "map (\<lambda>a. int (length (?h1 ! a))) xs = map (\<lambda>a. int (length (h ! a))) xs"
    using xs(1) by (simp add: nth_append)
  have vals: "map (\<lambda>r. ?h1 ! r) xs = map (\<lambda>r. h ! r) xs"
    using xs(1) by (simp add: nth_append)
  have xs1: "\<forall>r \<in> set xs. r < length ?h1" using xs(1) by auto
  from Cons.IH[OF xs1 xs(2), of "pre @ [?x']"] obtain rest' h' where
    run: "fold ?f (enumerate (length (pre @ [?x'])) (map (\<lambda>a. int (length (?h1 ! a))) xs))
               ((pre @ [?x']) @ xs, ?h1) = ((pre @ [?x']) @ rest', h')"
    and ext: "length ?h1 \<le> length h'" "\<forall>b < length ?h1. h' ! b = ?h1 ! b"
    and shape: "length rest' = length xs" "distinct rest'" "\<forall>r \<in> set rest'. r < length h'"
      "\<forall>r \<in> set rest'. r \<in> set xs \<or> length ?h1 \<le> r"
    and val: "map (\<lambda>r. h' ! r) rest' = map (padded_row ca M) (map (\<lambda>r. ?h1 ! r) xs)"
    by blast
  have step: "pad_at_h ca M (pre @ x # xs, h) (length pre, int (length (h ! x)))
                = ((pre @ [?x']) @ xs, ?h1)"
    by (simp add: pad_at_h_append)
  have "fold ?f (enumerate (length pre) (map (\<lambda>a. int (length (h ! a))) (x # xs)))
             (pre @ x # xs, h)
        = fold ?f (enumerate (Suc (length pre)) (map (\<lambda>a. int (length (h ! a))) xs))
             ((pre @ [?x']) @ xs, ?h1)"
    by (simp only: list.map enumerate_simps fold_simps step)
  also have "\<dots> = ((pre @ [?x']) @ rest', h')"
    using run by (simp only: lens length_append_singleton)
  finally have total: "fold ?f (enumerate (length pre) (map (\<lambda>a. int (length (h ! a))) (x # xs)))
             (pre @ x # xs, h) = (pre @ (?x' # rest'), h')"
    by simp
  have frame: "\<forall>b < length h. h' ! b = h ! b"
  proof (intro allI impI)
    fix b assume b: "b < length h"
    then have "b < length ?h1" by simp
    with ext(2) have "h' ! b = ?h1 ! b" by blast
    with ext1(2) b show "h' ! b = h ! b" by simp
  qed
  have notin: "?x' \<notin> set rest'"
  proof
    assume "?x' \<in> set rest'"
    with shape(4) have "?x' \<in> set xs \<or> length ?h1 \<le> ?x'" by blast
    then show False using x xs(1) by (auto split: if_splits)
  qed
  have hx': "h' ! ?x' = padded_row ca M (h ! x)"
    using ext(2) x' by metis
  have "map (\<lambda>r. h' ! r) (?x' # rest') = map (padded_row ca M) (map (\<lambda>r. h ! r) (x # xs))"
    using hx' val vals by (simp only: list.map) 
  moreover have "length h \<le> length h'" using ext(1) ext1(1) by linarith
  moreover have "length (?x' # rest') = length (x # xs)" using shape(1) by simp
  moreover have "distinct (?x' # rest')" using notin shape(2) by simp
  moreover have "\<forall>r \<in> set (?x' # rest'). r < length h'"
    using shape(3) x'(1) ext(1) by auto
  moreover have "\<forall>r \<in> set (?x' # rest'). r \<in> set (x # xs) \<or> length h \<le> r"
    using shape(4) by (auto split: if_splits)
  ultimately show ?case using total frame by blast
qed

lemma pad_output_h_sim:
  assumes "\<forall>r \<in> set seqs. r < length h" "distinct seqs"
    and "pad_output_h ca seqs h = (res, h')"
  shows "length h \<le> length h' \<and> (\<forall>b < length h. h' ! b = h ! b)
       \<and> (\<forall>rows. res = Inr rows \<longrightarrow>
             distinct rows \<and> length rows = length seqs
             \<and> (\<forall>r \<in> set rows. r < length h' \<and> (r \<in> set seqs \<or> length h \<le> r)))
       \<and> pad_output ca (map (\<lambda>r. h ! r) seqs) = on_success (map (\<lambda>r. h' ! r)) res"
proof -
  let ?vals = "map (\<lambda>r. h ! r) seqs"
  let ?lens = "map (\<lambda>a. int (length (h ! a))) seqs"
  let ?M = "fold max (tl ?lens) (hd ?lens)"
  let ?m = "fold min (tl ?lens) (hd ?lens)"
  have lens: "map (\<lambda>s. int (length s)) ?vals = ?lens" by (simp add: o_def)
  have keep: ?thesis if "res = Inr seqs" "h' = h" "pad_output ca ?vals = Inr ?vals"
    using that assms(1,2) by simp
  have fail: ?thesis if "res = Inl e" "h' = h" "pad_output ca ?vals = Inl e" for e
    using that by simp
  show ?thesis
  proof (cases "check_all_in_bounds (n_states ca) ?vals")
    case (Inl e)
    with assms(3) show ?thesis
      by (intro fail[of e]) (simp_all add: pad_output_h_def pad_output_def)
  next
    case chk: (Inr u)
    show ?thesis
    proof (cases "in_size ca > 1")
      case False
      with chk assms(3) show ?thesis
        by (intro keep) (simp_all add: pad_output_h_def pad_output_def)
    next
      case big: True
      show ?thesis
      proof (cases "seqs = []")
        case True
        with chk big assms(3) show ?thesis
          by (intro fail[of EmptyMaxArgument]) (simp_all add: pad_output_h_def pad_output_def)
      next
        case ne: False
        show ?thesis
        proof (cases "?M > ?m")
          case False
          with chk big ne assms(3) show ?thesis
            by (intro keep) (simp_all add: pad_output_h_def pad_output_def Let_def o_def)
        next
          case True
          from fold_pad_at_h[OF assms(1,2), of ca ?M "[]"] obtain rows h2 where
            run: "fold (\<lambda>p st. pad_at_h ca ?M st p) (enumerate 0 ?lens) (seqs, h) = (rows, h2)"
            and ext: "length h \<le> length h2" "\<forall>b < length h. h2 ! b = h ! b"
            and shape: "length rows = length seqs" "distinct rows"
              "\<forall>r \<in> set rows. r < length h2" "\<forall>r \<in> set rows. r \<in> set seqs \<or> length h \<le> r"
            and val: "map (\<lambda>r. h2 ! r) rows = map (padded_row ca ?M) ?vals"
            by auto
          have heap: "res = Inr rows" "h' = h2"
            using chk big ne True assms(3) run
            by (simp_all add: pad_output_h_def Let_def)
          have "fold (\<lambda>p acc. pad_at ca ?M acc p) (enumerate 0 ?lens) ?vals
                  = map (padded_row ca ?M) ?vals"
            using fold_pad_at[of ca ?M "[]" ?vals] by (simp add: o_def)
          then have pure: "pad_output ca ?vals = Inr (map (padded_row ca ?M) ?vals)"
            using chk big ne True by (simp add: pad_output_def Let_def o_def)
          show ?thesis
            using heap ext shape val pure by simp
        qed
      qed
    qed
  qed
qed

subsection \<open>The caller's input and the returned rows\<close>

text \<open>
  Claim C10. An evolution call, with any flags and whether it returns or raises, leaves
  every list object that existed before the call as it was, the caller's input sequence
  among them. When it returns, every row of the history is an object created during the
  call, so none of them is the input (nor any other earlier object), and the rows are
  pairwise different objects; this holds for the first row, a copy of the input, for the
  step results and for the rows that output padding lengthened. The contents of the rows
  are the history that the value-level \<open>call\<close> computes from the contents of the input.
\<close>

theorem frame_property:
  assumes "sq < length h" and "call_h ca sq steps pre_pad post_pad h = (res, h')"
  shows "length h \<le> length h' \<and> (\<forall>b < length h. h' ! b = h ! b) \<and> h' ! sq = h ! sq
       \<and> (\<forall>rows. res = Inr rows \<longrightarrow>
             distinct rows
             \<and> (\<forall>r \<in> set rows. length h \<le> r \<and> r < length h' \<and> r \<noteq> sq))
       \<and> call ca (h ! sq) steps pre_pad post_pad = on_success (map (\<lambda>r. h' ! r)) res"
proof (cases "steps < 1")
  case True
  with assms(2) show ?thesis by (auto simp: call_h_def call_def)
next
  case False
  let ?c = "length h"
  let ?h1 = "h @ [h ! sq]"
  obtain r2 h2 where ev: "evolve_loop_h ca pre_pad (nat steps) [?c] ?h1 = (r2, h2)"
    by (cases "evolve_loop_h ca pre_pad (nat steps) [?c] ?h1") blast
  have pre1: "[?c] \<noteq> []" "\<forall>r \<in> set [?c]. r < length ?h1" by simp_all
  from evolve_loop_h_sim[OF pre1 ev] have
    ext2: "length ?h1 \<le> length h2" "\<forall>b < length ?h1. h2 ! b = ?h1 ! b"
    and rows2: "\<forall>rows. r2 = Inr rows \<longrightarrow>
             (\<exists>new. rows = [?c] @ new \<and> distinct new
                   \<and> (\<forall>r \<in> set new. length ?h1 \<le> r \<and> r < length h2))"
    and sim2: "evolve_loop ca pre_pad (nat steps) (map (\<lambda>r. ?h1 ! r) [?c])
                 = on_success (map (\<lambda>r. h2 ! r)) r2"
    by blast+
  have sim2': "evolve_loop ca pre_pad (nat steps) [h ! sq] = on_success (map (\<lambda>r. h2 ! r)) r2"
    using sim2 by simp
  have frame2: "\<forall>b < length h. h2 ! b = h ! b"
  proof (intro allI impI)
    fix b assume b: "b < length h"
    then have "h2 ! b = ?h1 ! b" using ext2(2) by simp
    with b show "h2 ! b = h ! b" by (simp add: nth_append)
  qed
  have len2: "length h \<le> length h2" using ext2(1) by simp
  show ?thesis
  proof (cases r2)
    case (Inl e)
    with ev assms(2) False have "res = Inl e" "h' = h2"
      by (simp_all add: call_h_def alloc_def)
    moreover have "call ca (h ! sq) steps pre_pad post_pad = Inl e"
      using sim2' Inl False by (simp add: call_def)
    ultimately show ?thesis using frame2 len2 assms(1) by simp
  next
    case (Inr out)
    with rows2 obtain new where new: "out = ?c # new" "distinct new"
      "\<forall>r \<in> set new. length ?h1 \<le> r \<and> r < length h2" by auto
    have out: "distinct out" "\<forall>r \<in> set out. length h \<le> r \<and> r < length h2"
      using new ext2(1) by auto
    have pure2: "evolve_loop ca pre_pad (nat steps) [h ! sq] = Inr (map (\<lambda>r. h2 ! r) out)"
      using sim2' Inr by simp
    show ?thesis
    proof (cases post_pad)
      case False
      with ev Inr assms(2) \<open>\<not> steps < 1\<close> have "res = Inr out" "h' = h2"
        by (simp_all add: call_h_def alloc_def)
      moreover have "call ca (h ! sq) steps pre_pad post_pad = Inr (map (\<lambda>r. h2 ! r) out)"
        using pure2 False \<open>\<not> steps < 1\<close> by (simp add: call_def)
      ultimately show ?thesis using frame2 len2 out assms(1) by auto
    next
      case True
      with ev Inr assms(2) \<open>\<not> steps < 1\<close> have pd: "pad_output_h ca out h2 = (res, h')"
        by (simp add: call_h_def alloc_def)
      have "\<forall>r \<in> set out. r < length h2" using out(2) by simp
      from pad_output_h_sim[OF this out(1) pd] have
        ext3: "length h2 \<le> length h'" "\<forall>b < length h2. h' ! b = h2 ! b"
        and rows3: "\<forall>rows. res = Inr rows \<longrightarrow>
             distinct rows \<and> length rows = length out
             \<and> (\<forall>r \<in> set rows. r < length h' \<and> (r \<in> set out \<or> length h2 \<le> r))"
        and sim3: "pad_output ca (map (\<lambda>r. h2 ! r) out) = on_success (map (\<lambda>r. h' ! r)) res"
        by blast+
      have frame3: "\<forall>b < length h. h' ! b = h ! b"
        using ext3(2) frame2 len2 by auto
      have fresh: "distinct rows \<and> (\<forall>r \<in> set rows. length h \<le> r \<and> r < length h' \<and> r \<noteq> sq)"
        if "res = Inr rows" for rows
      proof -
        from rows3 that have d: "distinct rows"
          and r: "\<forall>r \<in> set rows. r < length h' \<and> (r \<in> set out \<or> length h2 \<le> r)"
          by simp_all
        have "length h \<le> r \<and> r < length h' \<and> r \<noteq> sq" if "r \<in> set rows" for r
          using r that out(2) len2 assms(1) by fastforce
        with d show ?thesis by simp
      qed
      have "call ca (h ! sq) steps pre_pad post_pad = on_success (map (\<lambda>r. h' ! r)) res"
        using pure2 sim3 True \<open>\<not> steps < 1\<close> by (simp add: call_def)
      moreover have "length h \<le> length h'" using ext3(1) len2 by simp
      ultimately show ?thesis using frame3 fresh assms(1) by simp
    qed
  qed
qed

lemma rule90_store_call:
  "call_h 
     \<lparr>nhd = (1, 1), n_states = 2, in_size = 3, rule = [0, 1, 0, 1, 1, 0, 1, 0], max_rule_ix = 8\<rparr> 0 2 False True [[0, 1, 0, 0, 0]]
     = (Inr [1, 4, 5],
        [[0, 1, 0, 0, 0], [0, 1, 0, 0, 0], [0, 1, 0], [0], [0, 0, 1, 0, 0], [0, 0, 0, 0, 0]])"
  by code_simp

theorem frame_property_witness:
  "(0::nat) < length [[0, 1, 0, 0, 0 :: int]]
   \<and> call_h 
     \<lparr>nhd = (1, 1), n_states = 2, in_size = 3, rule = [0, 1, 0, 1, 1, 0, 1, 0], max_rule_ix = 8\<rparr> 0 2 False True [[0, 1, 0, 0, 0]]
       = (Inr [1, 4, 5],
          [[0, 1, 0, 0, 0], [0, 1, 0, 0, 0], [0, 1, 0], [0], [0, 0, 1, 0, 0], [0, 0, 0, 0, 0]])
   \<and> distinct [1, 4, 5 :: nat]
   \<and> call 
     \<lparr>nhd = (1, 1), n_states = 2, in_size = 3, rule = [0, 1, 0, 1, 1, 0, 1, 0], max_rule_ix = 8\<rparr> [0, 1, 0, 0, 0] 2 False True
       = Inr [[0, 1, 0, 0, 0], [0, 0, 1, 0, 0], [0, 0, 0, 0, 0]]"
proof -
  have "(0::nat) < length [[0, 1, 0, 0, 0 :: int]]" by simp
  from frame_property[OF this rule90_store_call] rule90_store_call
  show ?thesis by simp
qed

end
